theory Spec2Isabelle
  imports Complex_Main
begin

section \<open>Exceptions\<close>

text \<open>
  The Python exceptions that the modelled code can raise. A raise is the value
  \<open>Inl e\<close> of a result type \<open>error + 'a\<close>.
\<close>

datatype error = ValueError | IndexError | AttributeError | NotImplementedError | TypeError

section \<open>The load manager (ptypy/utils/parallel.py)\<close>

text \<open>
  \<open>LoadManager\<close> holds \<open>load\<close>, an integer array with one entry per rank
  (\<open>np.zeros((size,), dtype=int)\<close>, 64-bit signed entries), and the dictionary
  \<open>rank_of\<close>. The module global \<open>size\<close> is the parameter \<open>P\<close> of every function
  below. An entry of the array is an integer of the range of \<open>int64\<close>; every
  arithmetic operation of numpy on such values wraps around, which \<open>wrap64\<close> writes
  out. Indices into the id list are natural numbers.
\<close>

definition int64 :: "int \<Rightarrow> bool" where
  "int64 x = (- (2 ^ 63) \<le> x \<and> x < 2 ^ 63)"

definition wrap64 :: "int \<Rightarrow> int" where
  "wrap64 x = (x + 2 ^ 63) mod 2 ^ 64 - 2 ^ 63"

record 'k LoadManager =
  load :: "int list"
  rank_of :: "'k \<rightharpoonup> nat"

definition LoadManager_init :: "nat \<Rightarrow> 'k LoadManager" where
  "LoadManager_init P = \<lparr>load = replicate P 0, rank_of = Map.empty\<rparr>"

subsection \<open>The numpy operations used by \<open>assign\<close>\<close>

text \<open>\<open>a.sum()\<close> of an int64 array: the sum modulo \<open>2^64\<close>, whatever the order of
  the additions.\<close>

definition np_sum :: "int list \<Rightarrow> int" where
  "np_sum xs = wrap64 (sum_list xs)"

text \<open>\<open>a.argmin()\<close>: the index of the first occurrence of the minimum; ValueError
  (here \<open>None\<close>) on an empty array.\<close>

fun argmin :: "int list \<Rightarrow> nat option" where
  "argmin [] = None"
| "argmin (x # xs) =
     (case argmin xs of
        None \<Rightarrow> Some 0
      | Some j \<Rightarrow> if xs ! j < x then Some (Suc j) else Some 0)"

text \<open>Python indexing of a sequence of length \<open>n\<close> by an integer: negative indices
  count from the end, anything else out of range raises IndexError (\<open>None\<close>).\<close>

definition norm_index :: "nat \<Rightarrow> int \<Rightarrow> nat option" where
  "norm_index n i =
     (if 0 \<le> i \<and> i < int n then Some (nat i)
      else if - int n \<le> i \<and> i < 0 then Some (nat (int n + i))
      else None)"

text \<open>\<open>a[mask]\<close>: the entries of \<open>a\<close> where the boolean array \<open>mask\<close> is true.\<close>

definition select :: "bool list \<Rightarrow> 'a list \<Rightarrow> 'a list" where
  "select msk a = map fst (filter snd (zip a msk))"

text \<open>\<open>part = np.zeros_like(load); part[li] = ipart\<close>: the values of \<open>ipart\<close> are
  written, in order, at the positions where \<open>li\<close> is true, the other positions stay 0.
  (\<open>ipart\<close> has one entry per true position of \<open>li\<close>; the case of a shorter \<open>ipart\<close>
  does not arise and is filled with 0.)\<close>

fun masked_assign :: "bool list \<Rightarrow> int list \<Rightarrow> int list" where
  "masked_assign [] vs = []"
| "masked_assign (b # bs) vs =
     (if b then (case vs of [] \<Rightarrow> 0 # masked_assign bs []
                 | v # vs' \<Rightarrow> v # masked_assign bs vs')
      else 0 # masked_assign bs vs)"

text \<open>\<open>ipart[:-int(1+rem):-1] += 1\<close>: a slice with step \<open>-1\<close> that starts at the last
  entry and stops before the index \<open>-(1+rem)\<close>, normalised as Python normalises the
  stop of a backward slice. Every index strictly above the normalised stop is
  incremented. \<open>1+rem\<close> and the increments are int64 operations.\<close>

definition bump_tail :: "int list \<Rightarrow> int \<Rightarrow> int list" where
  "bump_tail ipart rem =
     (let n = int (length ipart);
          stop = - wrap64 (1 + rem);
          s = (if stop < 0 then max (stop + n) (- 1) else min stop (n - 1))
      in map (\<lambda>(j, x). if s < int j then wrap64 (x + 1) else x) (enumerate 0 ipart))"

text \<open>\<open>np.cumsum\<close> of an int64 array.\<close>

fun cumsum_from :: "int \<Rightarrow> int list \<Rightarrow> int list" where
  "cumsum_from acc [] = []"
| "cumsum_from acc (x # xs) = wrap64 (acc + x) # cumsum_from (wrap64 (acc + x)) xs"

definition cumsum :: "int list \<Rightarrow> int list" where
  "cumsum xs = cumsum_from 0 xs"

subsection \<open>\<open>LoadManager.assign\<close>\<close>

text \<open>Lines 82-105 of \<open>assign\<close>: the number of new items \<open>part[r]\<close> given to each
  rank, from the current load and the number \<open>Nid\<close> of ids. Sums, products and
  differences are int64 operations. The floor division and the remainder by the
  positive count \<open>nsize\<close> stay in range; numpy's integer division by zero yields 0
  (with a warning), as \<open>div\<close> does, and can only be reached with an empty
  \<open>partition\<close>.\<close>

definition eligible :: "nat \<Rightarrow> int list \<Rightarrow> int \<Rightarrow> bool list" where
  "eligible P ld Nid = (let total_load = wrap64 (np_sum ld + Nid)
                        in map (\<lambda>l. total_load > wrap64 (l * int P)) ld)"

definition bulk_part :: "nat \<Rightarrow> int list \<Rightarrow> int \<Rightarrow> int list" where
  "bulk_part P ld Nid =
     (let li = eligible P ld Nid;
          nsize = int (length (filter id li));
          total_load = wrap64 (np_sum (select li ld) + Nid);
          partition = map (\<lambda>l. wrap64 (total_load - wrap64 (l * nsize))) (select li ld);
          ipart = map (\<lambda>p. p div nsize) partition;
          rem = np_sum (map (\<lambda>p. p mod nsize) partition) div nsize;
          ipart = bump_tail ipart rem
      in masked_assign li ipart)"

text \<open>\<open>rlist[i < cumpart][0]\<close> with \<open>rlist = np.arange(size)\<close>: the first rank
  whose cumulative boundary exceeds \<open>i\<close>; IndexError (\<open>None\<close>) when there is none.\<close>

definition first_rank :: "nat \<Rightarrow> int list \<Rightarrow> nat \<Rightarrow> nat option" where
  "first_rank P cumpart i =
     (case select (map (\<lambda>c. int i < c) cumpart) [0..<P] of
        [] \<Rightarrow> None
      | r # _ \<Rightarrow> Some r)"

text \<open>The loop over \<open>enumerate(idlist)\<close>.\<close>

fun assign_loop ::
  "nat \<Rightarrow> int list \<Rightarrow> (nat \<times> 'k) list \<Rightarrow> nat list list \<Rightarrow> ('k \<rightharpoonup> nat)
     \<Rightarrow> error + (nat list list \<times> ('k \<rightharpoonup> nat))" where
  "assign_loop P cumpart [] out rk = Inr (out, rk)"
| "assign_loop P cumpart ((i, k) # iks) out rk =
     (case first_rank P cumpart i of
        None \<Rightarrow> Inl IndexError
      | Some r \<Rightarrow> assign_loop P cumpart iks (out[r := out ! r @ [i]]) (rk(k \<mapsto> r)))"

text \<open>\<open>assign(idlist)\<close>: \<open>None\<close> is the anonymous request, \<open>Some ids\<close> a list of
  ids. The result is the updated manager and the list \<open>R\<close> of index lists.
  \<open>self.load[r] += 1\<close> and \<open>self.load += part\<close> are int64 operations.\<close>

definition assign ::
  "nat \<Rightarrow> 'k list option \<Rightarrow> 'k LoadManager \<Rightarrow> error + ('k LoadManager \<times> nat list list)" where
  "assign P idlist s =
     (case idlist of
        None \<Rightarrow>
          (case argmin (rev (load s)) of
             None \<Rightarrow> Inl ValueError
           | Some j \<Rightarrow>
               (let r = int P - 1 - int j in
                case norm_index (length (load s)) r of
                  None \<Rightarrow> Inl IndexError
                | Some r' \<Rightarrow>
                    Inr (s\<lparr>load := (load s)[r' := wrap64 (load s ! r' + 1)]\<rparr>,
                         map (\<lambda>rr. if int rr = r then [0] else []) [0..<P])))
      | Some ids \<Rightarrow>
          (let Nid = int (length ids);
               part = bulk_part P (load s) Nid;
               load' = map2 (\<lambda>l p. wrap64 (l + p)) (load s) part;
               cumpart = cumsum part
           in case assign_loop P cumpart (enumerate 0 ids) (replicate P []) (rank_of s) of
                Inl e \<Rightarrow> Inl e
              | Inr (out, rk) \<Rightarrow> Inr (\<lparr>load = load', rank_of = rk\<rparr>, out)))"

subsection \<open>The allocation over the integers\<close>

text \<open>
  The same computation over the mathematical integers, where nothing wraps around.
  It is not the model of the code but the reference for it: \<open>no_overflow\<close> says that
  the loads, the count of ids and the number of ranks are int64 values and that every
  value the code compares, divides or stores, computed without wrap-around, lies in
  the range of int64. The code then computes these values
  (lemma \<open>bulk_part_no_overflow\<close>).
\<close>

definition eligible_exact :: "nat \<Rightarrow> int list \<Rightarrow> int \<Rightarrow> bool list" where
  "eligible_exact P ld Nid = (let total_load = sum_list ld + Nid
                              in map (\<lambda>l. total_load > l * int P) ld)"

definition bump_tail_exact :: "int list \<Rightarrow> int \<Rightarrow> int list" where
  "bump_tail_exact ipart rem =
     (let n = int (length ipart);
          stop = - (1 + rem);
          s = (if stop < 0 then max (stop + n) (- 1) else min stop (n - 1))
      in map (\<lambda>(j, x). if s < int j then x + 1 else x) (enumerate 0 ipart))"

definition bulk_part_exact :: "nat \<Rightarrow> int list \<Rightarrow> int \<Rightarrow> int list" where
  "bulk_part_exact P ld Nid =
     (let li = eligible_exact P ld Nid;
          nsize = int (length (filter id li));
          total_load = sum_list (select li ld) + Nid;
          partition = map (\<lambda>l. total_load - l * nsize) (select li ld);
          ipart = map (\<lambda>p. p div nsize) partition;
          rem = sum_list (map (\<lambda>p. p mod nsize) partition) div nsize;
          ipart = bump_tail_exact ipart rem
      in masked_assign li ipart)"

fun cumsum_from_exact :: "int \<Rightarrow> int list \<Rightarrow> int list" where
  "cumsum_from_exact acc [] = []"
| "cumsum_from_exact acc (x # xs) = (acc + x) # cumsum_from_exact (acc + x) xs"

definition cumsum_exact :: "int list \<Rightarrow> int list" where
  "cumsum_exact xs = cumsum_from_exact 0 xs"

definition no_overflow :: "nat \<Rightarrow> int list \<Rightarrow> int \<Rightarrow> bool" where
  "no_overflow P ld Nid =
     (let li = eligible_exact P ld Nid;
          nsize = int (length (filter id li));
          total_load = sum_list (select li ld) + Nid;
          partition = map (\<lambda>l. total_load - l * nsize) (select li ld);
          ipart = map (\<lambda>p. p div nsize) partition;
          rem = sum_list (map (\<lambda>p. p mod nsize) partition) div nsize;
          part = bulk_part_exact P ld Nid
      in list_all int64 ld \<and> int64 Nid \<and> int64 (int P) \<and>
         int64 (sum_list ld + Nid) \<and>
         list_all (\<lambda>l. int64 (l * int P)) ld \<and>
         list_all int64 partition \<and>
         int64 (sum_list (map (\<lambda>p. p mod nsize) partition)) \<and>
         int64 (1 + rem) \<and>
         list_all int64 (bump_tail_exact ipart rem) \<and>
         list_all int64 (map2 (+) ld part) \<and>
         list_all int64 (cumsum_exact part))"

section \<open>Collective operations (ptypy/utils/parallel.py)\<close>

text \<open>
  The module globals: \<open>MPIenabled = not (size==1)\<close>, and \<open>MPI\<close>, which is
  \<open>None\<close> when importing mpi4py failed (\<open>MPI_loaded\<close> is false then). The
  communicator and numpy are outside the repository. The communicator is a pair of
  functions giving the contents that \<open>comm.Allreduce(MPI.IN_PLACE, \<dots>)\<close> leaves in
  the buffer (an array, or the one-element array \<open>s\<close> of line 156, given by its
  element); handed an object that has no buffer (a generator, a Python int) mpi4py
  raises TypeError. A call of \<open>comm.Barrier\<close> is recorded in a log of communicator
  calls.
\<close>

definition MPIenabled_init :: "nat \<Rightarrow> bool" where
  "MPIenabled_init P = (\<not> (P = 1))"

datatype mpi_op = MPI_SUM | MPI_MAX | MPI_MIN | MPI_PROD

datatype comm_call = CommBarrier

record ('arr, 'res) comm =
  Allreduce_array :: "mpi_op \<Rightarrow> 'arr \<Rightarrow> 'arr"
  Allreduce_scalar :: "mpi_op \<Rightarrow> 'res \<Rightarrow> 'res"

text \<open>
  The numpy reductions \<open>np.sum\<close>, \<open>np.max\<close>, \<open>np.min\<close>, \<open>np.prod\<close> as they are
  called by \<open>_MPIop\<close>; each call may raise.
  \<^item> \<open>npop\<close>: \<open>npop(ai)\<close>, an array reduced to a scalar;
  \<^item> \<open>npop_list\<close>: \<open>npop([\<dots>])\<close>, a Python list of such scalars reduced to a scalar;
  \<^item> \<open>npop_axis\<close>: \<open>npop(ai, axis=k)\<close>, an array reduced along one axis, to an array
    or to a scalar;
  \<^item> \<open>npop_gen\<close>: \<open>npop(ai for ai in \<dots>)\<close>, the reduction handed a generator. numpy
    either reduces the generated arrays (an array or a scalar results) or hands the
    generator back as it is (\<open>Unreduced\<close>).
\<close>

datatype ('arr, 'sc) npval = Arr 'arr | Sc 'sc

datatype ('arr, 'sc) gen_result = Reduced "('arr, 'sc) npval" | Unreduced

record ('arr, 'sc, 'res) numpy =
  npop :: "mpi_op \<Rightarrow> 'arr \<Rightarrow> error + 'sc"
  npop_list :: "mpi_op \<Rightarrow> 'sc list \<Rightarrow> error + 'res"
  npop_gen :: "mpi_op \<Rightarrow> 'arr list \<Rightarrow> error + ('arr, 'sc) gen_result"
  npop_axis :: "mpi_op \<Rightarrow> int \<Rightarrow> 'arr \<Rightarrow> error + ('arr, 'sc) npval"

text \<open>\<open>allreduce(a, op=None)\<close>: the contents of the caller's array after the call
  (mpi4py's default operation is the sum).\<close>

definition allreduce ::
  "bool \<Rightarrow> ('arr, 'res) comm \<Rightarrow> 'arr \<Rightarrow> mpi_op option \<Rightarrow> 'arr" where
  "allreduce MPIenabled cm a op =
     (if \<not> MPIenabled then a
      else case op of None \<Rightarrow> Allreduce_array cm MPI_SUM a
                    | Some opr \<Rightarrow> Allreduce_array cm opr a)"

text \<open>\<open>barrier()\<close>: the log of communicator calls after the call.\<close>

definition barrier :: "bool \<Rightarrow> comm_call list \<Rightarrow> comm_call list" where
  "barrier MPIenabled calls = (if \<not> MPIenabled then calls else calls @ [CommBarrier])"

text \<open>A list comprehension whose element expression may raise: the first raise ends
  it.\<close>

fun collect :: "('a \<Rightarrow> error + 'b) \<Rightarrow> 'a list \<Rightarrow> error + 'b list" where
  "collect f [] = Inr []"
| "collect f (x # xs) =
     (case f x of
        Inl e \<Rightarrow> Inl e
      | Inr y \<Rightarrow> (case collect f xs of Inl e \<Rightarrow> Inl e | Inr ys \<Rightarrow> Inr (y # ys)))"

text \<open>The shapes of result of \<open>_MPIop\<close>: the scalar \<open>s[0]\<close> for \<open>axis=None\<close>; for
  \<open>axis==0\<close> the value \<open>s\<close>, or the generator of the entries of \<open>a\<close> that are not
  \<open>None\<close> when numpy handed it back; otherwise a list with one entry per entry of
  \<open>a\<close>.\<close>

datatype ('arr, 'sc, 'res) mpi_result =
    Total 'res
  | Across "('arr, 'sc) npval"
  | Generator "'arr list"
  | PerEntry "('arr, 'sc) npval option list"

text \<open>\<open>_MPIop(a, op, axis)\<close>. The dictionary of line 151 evaluates \<open>MPI.SUM\<close>
  first, an AttributeError when \<open>MPI\<close> is \<open>None\<close>. \<open>a\<close> is a list whose entries
  are arrays or \<open>None\<close>.\<close>

definition MPIop ::
  "('arr, 'sc, 'res) numpy \<Rightarrow> ('arr, 'res) comm \<Rightarrow> bool \<Rightarrow> bool
     \<Rightarrow> 'arr option list \<Rightarrow> mpi_op \<Rightarrow> int option \<Rightarrow> error + ('arr, 'sc, 'res) mpi_result" where
  "MPIop np cm MPIenabled MPI_loaded a op axis =
     (if \<not> MPI_loaded then Inl AttributeError
      else case axis of
        None \<Rightarrow>
          (case collect (npop np op) (List.map_filter id a) of
             Inl e \<Rightarrow> Inl e
           | Inr vs \<Rightarrow>
               (case npop_list np op vs of
                  Inl e \<Rightarrow> Inl e
                | Inr s \<Rightarrow> Inr (Total (if MPIenabled then Allreduce_scalar cm op s else s))))
      | Some ax \<Rightarrow>
          if ax = 0 then
            (case npop_gen np op (List.map_filter id a) of
               Inl e \<Rightarrow> Inl e
             | Inr Unreduced \<Rightarrow>
                 (if MPIenabled then Inl TypeError
                  else Inr (Generator (List.map_filter id a)))
             | Inr (Reduced (Sc v)) \<Rightarrow>
                 (if MPIenabled then Inl TypeError else Inr (Across (Sc v)))
             | Inr (Reduced (Arr s)) \<Rightarrow>
                 Inr (Across (Arr (if MPIenabled then Allreduce_array cm op s else s))))
          else
            (case collect (\<lambda>ai. case ai of
                                  None \<Rightarrow> Inr None
                                | Some x \<Rightarrow> (case npop_axis np op (ax - 1) x of
                                              Inl e \<Rightarrow> Inl e | Inr y \<Rightarrow> Inr (Some y))) a of
               Inl e \<Rightarrow> Inl e
             | Inr r \<Rightarrow> Inr (PerEntry r)))"

definition MPIsum ::
  "('arr, 'sc, 'res) numpy \<Rightarrow> ('arr, 'res) comm \<Rightarrow> bool \<Rightarrow> bool
     \<Rightarrow> 'arr option list \<Rightarrow> int option \<Rightarrow> error + ('arr, 'sc, 'res) mpi_result" where
  "MPIsum np cm MPIenabled MPI_loaded a axis = MPIop np cm MPIenabled MPI_loaded a MPI_SUM axis"

definition MPImin ::
  "('arr, 'sc, 'res) numpy \<Rightarrow> ('arr, 'res) comm \<Rightarrow> bool \<Rightarrow> bool
     \<Rightarrow> 'arr option list \<Rightarrow> int option \<Rightarrow> error + ('arr, 'sc, 'res) mpi_result" where
  "MPImin np cm MPIenabled MPI_loaded a axis = MPIop np cm MPIenabled MPI_loaded a MPI_MIN axis"

definition MPImax ::
  "('arr, 'sc, 'res) numpy \<Rightarrow> ('arr, 'res) comm \<Rightarrow> bool \<Rightarrow> bool
     \<Rightarrow> 'arr option list \<Rightarrow> int option \<Rightarrow> error + ('arr, 'sc, 'res) mpi_result" where
  "MPImax np cm MPIenabled MPI_loaded a axis = MPIop np cm MPIenabled MPI_loaded a MPI_MAX axis"

definition MPIprod ::
  "('arr, 'sc, 'res) numpy \<Rightarrow> ('arr, 'res) comm \<Rightarrow> bool \<Rightarrow> bool
     \<Rightarrow> 'arr option list \<Rightarrow> int option \<Rightarrow> error + ('arr, 'sc, 'res) mpi_result" where
  "MPIprod np cm MPIenabled MPI_loaded a axis = MPIop np cm MPIenabled MPI_loaded a MPI_PROD axis"

subsection \<open>numpy on one-dimensional int64 arrays\<close>

text \<open>
  For concrete evaluation: numpy where every array is a one-dimensional int64 array
  (a list of int64 values) and every scalar of an array an int64 value.
  \<^item> \<open>np.sum\<close> and \<open>np.prod\<close> of an int64 array wrap around; \<open>np.max\<close> and \<open>np.min\<close>
    of an empty array raise ValueError.
  \<^item> A Python list of int64 scalars is converted to an int64 array and reduced in
    the same way, but the empty list is converted to an empty float array: its sum is
    the float \<open>0.0\<close>, its product the float \<open>1.0\<close>.
  \<^item> Along axis 0 or -1 a one-dimensional array reduces to a scalar; any other axis
    is out of bounds (an AxisError, which is a ValueError).
  \<^item> \<open>np.sum\<close> of a generator is Python's \<open>sum\<close>: the arrays are added one after
    the other to the integer 0, elementwise, an array of one element being broadcast
    against any other and two other lengths that differ raising ValueError.
    \<open>np.max\<close>, \<open>np.min\<close> and \<open>np.prod\<close> hand the generator back unreduced.
\<close>

datatype np_scalar = Int64 int | Float64 real

definition np1_reduce :: "mpi_op \<Rightarrow> int list \<Rightarrow> error + int" where
  "np1_reduce op xs =
     (case op of
        MPI_SUM \<Rightarrow> Inr (wrap64 (sum_list xs))
      | MPI_PROD \<Rightarrow> Inr (wrap64 (prod_list xs))
      | MPI_MAX \<Rightarrow> (if xs = [] then Inl ValueError else Inr (Max (set xs)))
      | MPI_MIN \<Rightarrow> (if xs = [] then Inl ValueError else Inr (Min (set xs))))"

definition np1_reduce_list :: "mpi_op \<Rightarrow> int list \<Rightarrow> error + np_scalar" where
  "np1_reduce_list op vs =
     (if vs = [] then
        (case op of
           MPI_SUM \<Rightarrow> Inr (Float64 0)
         | MPI_PROD \<Rightarrow> Inr (Float64 1)
         | MPI_MAX \<Rightarrow> Inl ValueError
         | MPI_MIN \<Rightarrow> Inl ValueError)
      else (case np1_reduce op vs of Inl e \<Rightarrow> Inl e | Inr v \<Rightarrow> Inr (Int64 v)))"

definition np1_add :: "int list \<Rightarrow> int list \<Rightarrow> error + int list" where
  "np1_add xs ys =
     (if length xs = length ys then Inr (map2 (\<lambda>x y. wrap64 (x + y)) xs ys)
      else if length xs = 1 then Inr (map (\<lambda>y. wrap64 (hd xs + y)) ys)
      else if length ys = 1 then Inr (map (\<lambda>x. wrap64 (x + hd ys)) xs)
      else Inl ValueError)"

fun np1_sum_from :: "int list \<Rightarrow> int list list \<Rightarrow> error + int list" where
  "np1_sum_from acc [] = Inr acc"
| "np1_sum_from acc (x # xs) =
     (case np1_add acc x of Inl e \<Rightarrow> Inl e | Inr acc' \<Rightarrow> np1_sum_from acc' xs)"

definition np1_reduce_gen :: "mpi_op \<Rightarrow> int list list \<Rightarrow> error + (int list, int) gen_result" where
  "np1_reduce_gen op xs =
     (case op of
        MPI_SUM \<Rightarrow>
          (case xs of
             [] \<Rightarrow> Inr (Reduced (Sc 0))
           | x # xs' \<Rightarrow>
               (case np1_sum_from (map (\<lambda>v. wrap64 (0 + v)) x) xs' of
                  Inl e \<Rightarrow> Inl e
                | Inr s \<Rightarrow> Inr (Reduced (Arr s))))
      | MPI_MAX \<Rightarrow> Inr Unreduced
      | MPI_MIN \<Rightarrow> Inr Unreduced
      | MPI_PROD \<Rightarrow> Inr Unreduced)"

definition np1_reduce_axis :: "mpi_op \<Rightarrow> int \<Rightarrow> int list \<Rightarrow> error + (int list, int) npval" where
  "np1_reduce_axis op ax xs =
     (if ax = 0 \<or> ax = - 1
      then (case np1_reduce op xs of Inl e \<Rightarrow> Inl e | Inr v \<Rightarrow> Inr (Sc v))
      else Inl ValueError)"

definition np1 :: "(int list, int, np_scalar) numpy" where
  "np1 = \<lparr>npop = np1_reduce,
          npop_list = np1_reduce_list,
          npop_gen = np1_reduce_gen,
          npop_axis = np1_reduce_axis\<rparr>"

text \<open>A communicator of one rank: combining the single contribution leaves it as it
  is.\<close>

definition comm_keep :: "mpi_op \<Rightarrow> 'a \<Rightarrow> 'a" where
  "comm_keep op a = a"

definition comm1 :: "('arr, 'res) comm" where
  "comm1 = \<lparr>Allreduce_array = comm_keep, Allreduce_scalar = comm_keep\<rparr>"

section \<open>The engine life cycle (ptypy/engines/base.py)\<close>

text \<open>
  The record \<open>meta\<close> that \<open>iterate\<close> fills and copies into \<open>itermeta\<close>, and the
  dictionary appended to \<open>ptycho.runtime.iter_info\<close>, which adds the key
  \<open>iterations\<close>.
\<close>

record 'e meta_record =
  iteration :: int
  engine :: string
  duration :: real
  error :: 'e

record 'e info_record =
  iterations :: nat
  info :: "'e meta_record"

text \<open>
  The engine. An attribute that \<open>__init__\<close> does not set (\<open>curiter\<close>,
  \<open>errorlist\<close>, \<open>probe_support\<close>) is \<open>None\<close> until \<open>initialize\<close> sets it; reading
  it before raises AttributeError. \<open>engine_state\<close> is everything the engine-specific
  hooks act on (the data of the parent \<open>ptycho\<close> object); the hooks and the rest of
  the environment are the fields of \<open>env\<close>: a hook returns the new data and either
  raises or returns, and is taken not to assign the attributes of the life cycle
  themselves; \<open>clock\<close> is \<open>time.time()\<close>; \<open>support_masks supp d\<close> is the list
  of pairs \<open>(name, support)\<close> computed in \<open>prepare\<close> from the storages of the probe.
\<close>

record ('d, 'e, 'u) BaseEngine =
  p_numiter_contiguous :: int
  p_probe_support :: "real option"
  itermeta :: "'e meta_record list"
  meta :: "'e meta_record option"
  finished :: bool
  numiter :: int
  curiter :: "int option"
  errorlist :: "'e list option"
  probe_support :: "(string \<rightharpoonup> 'u) option"
  engine_state :: 'd
  iter_info :: "'e info_record list"
  comm_calls :: "comm_call list"

record ('d, 'e, 'u) env =
  engine_initialize :: "'d \<Rightarrow> error option \<times> 'd"
  engine_prepare :: "'d \<Rightarrow> error option \<times> 'd"
  engine_iterate :: "'d \<Rightarrow> (error + 'e) \<times> 'd"
  engine_finalize :: "'d \<Rightarrow> error option \<times> 'd"
  class_name :: string
  clock :: "'d \<Rightarrow> real"
  support_masks :: "real \<Rightarrow> 'd \<Rightarrow> (string \<times> 'u) list"
  MPIenabled :: bool

text \<open>\<open>DEFAULT_BASE\<close> and \<open>__init__(ptycho_parent, pars)\<close>: \<open>pars\<close> overrides the
  defaults it gives (\<open>None\<close>: not given). \<open>iter_info\<close> and the log of communicator
  calls belong to the surroundings and are passed in.\<close>

definition DEFAULT_BASE_numiter :: int where
  "DEFAULT_BASE_numiter = 10"

definition DEFAULT_BASE_numiter_contiguous :: int where
  "DEFAULT_BASE_numiter_contiguous = 1"

definition DEFAULT_BASE_probe_support :: "real option" where
  "DEFAULT_BASE_probe_support = Some 0.8"

definition BaseEngine_init ::
  "'d \<Rightarrow> 'e info_record list \<Rightarrow> comm_call list \<Rightarrow> int option \<Rightarrow> int option
     \<Rightarrow> real option option \<Rightarrow> ('d, 'e, 'u) BaseEngine" where
  "BaseEngine_init ptycho_parent infos calls pars_numiter pars_numiter_contiguous pars_probe_support =
     \<lparr>p_numiter_contiguous = (case pars_numiter_contiguous of
                                 None \<Rightarrow> DEFAULT_BASE_numiter_contiguous | Some n \<Rightarrow> n),
      p_probe_support = (case pars_probe_support of
                           None \<Rightarrow> DEFAULT_BASE_probe_support | Some x \<Rightarrow> x),
      itermeta = [],
      meta = None,
      finished = False,
      numiter = (case pars_numiter of None \<Rightarrow> DEFAULT_BASE_numiter | Some n \<Rightarrow> n),
      curiter = None,
      errorlist = None,
      probe_support = None,
      engine_state = ptycho_parent,
      iter_info = infos,
      comm_calls = calls\<rparr>"

text \<open>Every life-cycle method returns the engine as the call leaves it and the
  exception it raised, if any.\<close>

definition initialize ::
  "('d, 'e, 'u) env \<Rightarrow> ('d, 'e, 'u) BaseEngine \<Rightarrow> ('d, 'e, 'u) BaseEngine \<times> error option" where
  "initialize h s =
     (let s1 = s\<lparr>curiter := Some 0, errorlist := Some [], probe_support := Some Map.empty\<rparr>;
          (r, d) = engine_initialize h (engine_state s1)
      in (s1\<lparr>engine_state := d\<rparr>, r))"

definition prepare ::
  "('d, 'e, 'u) env \<Rightarrow> ('d, 'e, 'u) BaseEngine \<Rightarrow> ('d, 'e, 'u) BaseEngine \<times> error option" where
  "prepare h s =
     (let s1 = s\<lparr>finished := False\<rparr> in
      case (case p_probe_support s1 of
              None \<Rightarrow> Inr s1
            | Some supp \<Rightarrow>
                (case probe_support s1 of
                   None \<Rightarrow> Inl AttributeError
                 | Some ps \<Rightarrow>
                     Inr (s1\<lparr>probe_support :=
                               Some (fold (\<lambda>(name, support) m. m(name \<mapsto> support))
                                          (support_masks h supp (engine_state s1)) ps)\<rparr>))) of
        Inl e \<Rightarrow> (s1, Some e)
      | Inr s2 \<Rightarrow>
          (let (r, d) = engine_prepare h (engine_state s2)
           in (s2\<lparr>engine_state := d\<rparr>, r)))"

text \<open>The body of the loop of \<open>iterate\<close>, lines 126-158, entered when \<open>finished\<close>
  is false.\<close>

definition iterate_body ::
  "('d, 'e, 'u) env \<Rightarrow> ('d, 'e, 'u) BaseEngine \<Rightarrow> ('d, 'e, 'u) BaseEngine \<times> error option" where
  "iterate_body h s =
     (let t = clock h (engine_state s);
          (r, d) = engine_iterate h (engine_state s);
          s1 = s\<lparr>engine_state := d\<rparr>
      in case r of
           Inl e \<Rightarrow> (s1, Some e)
         | Inr err \<Rightarrow>
             (case errorlist s1 of
                None \<Rightarrow> (s1, Some AttributeError)
              | Some el \<Rightarrow>
                  (let s2 = s1\<lparr>errorlist := Some (el @ [err])\<rparr> in
                   case curiter s2 of
                     None \<Rightarrow> (s2, Some AttributeError)
                   | Some c \<Rightarrow>
                       (let s3 = s2\<lparr>curiter := Some (c + 1)\<rparr>;
                            s4 = (if c + 1 = numiter s3 then s3\<lparr>finished := True\<rparr> else s3);
                            m = \<lparr>iteration = c + 1, engine = class_name h,
                                 duration = clock h d - t, error = err\<rparr>;
                            s5 = s4\<lparr>meta := Some m, itermeta := itermeta s4 @ [m]\<rparr>;
                            s6 = s5\<lparr>iter_info := iter_info s5 @
                                       [\<lparr>iterations = length (iter_info s5), info = m\<rparr>]\<rparr>
                        in (s6\<lparr>comm_calls := barrier (MPIenabled h) (comm_calls s6)\<rparr>, None)))))"

text \<open>\<open>for n in range(N): if self.finished: break; \<dots>\<close>\<close>

fun iterate_loop ::
  "('d, 'e, 'u) env \<Rightarrow> nat \<Rightarrow> ('d, 'e, 'u) BaseEngine \<Rightarrow> ('d, 'e, 'u) BaseEngine \<times> error option" where
  "iterate_loop h 0 s = (s, None)"
| "iterate_loop h (Suc n) s =
     (if finished s then (s, None)
      else case iterate_body h s of
             (s', Some e) \<Rightarrow> (s', Some e)
           | (s', None) \<Rightarrow> iterate_loop h n s')"

text \<open>\<open>iterate(num=None)\<close>; \<open>range(N)\<close> is empty for \<open>N < 1\<close>.\<close>

definition iterate ::
  "('d, 'e, 'u) env \<Rightarrow> int option \<Rightarrow> ('d, 'e, 'u) BaseEngine
     \<Rightarrow> ('d, 'e, 'u) BaseEngine \<times> error option" where
  "iterate h num s =
     (let N = (case num of None \<Rightarrow> p_numiter_contiguous s | Some n \<Rightarrow> n)
      in iterate_loop h (nat N) s)"

definition finalize ::
  "('d, 'e, 'u) env \<Rightarrow> ('d, 'e, 'u) BaseEngine \<Rightarrow> ('d, 'e, 'u) BaseEngine \<times> error option" where
  "finalize h s =
     (let (r, d) = engine_finalize h (engine_state s)
      in (s\<lparr>engine_state := d\<rparr>, r))"

text \<open>The hooks of \<open>BaseEngine\<close> itself all raise NotImplementedError.\<close>

definition BaseEngine_env :: "('d \<Rightarrow> real) \<Rightarrow> (real \<Rightarrow> 'd \<Rightarrow> (string \<times> 'u) list) \<Rightarrow> bool
    \<Rightarrow> ('d, 'e, 'u) env" where
  "BaseEngine_env clk masks enabled =
     \<lparr>engine_initialize = (\<lambda>d. (Some NotImplementedError, d)),
      engine_prepare = (\<lambda>d. (Some NotImplementedError, d)),
      engine_iterate = (\<lambda>d. (Inl NotImplementedError, d)),
      engine_finalize = (\<lambda>d. (Some NotImplementedError, d)),
      class_name = ''BaseEngine'',
      clock = clk,
      support_masks = masks,
      MPIenabled = enabled\<rparr>"

text \<open>Sequences of life-cycle calls. A call that raises ends the sequence, as the
  exception ends the caller.\<close>

datatype lifecycle_op = Initialize | Prepare | Iterate "int option" | Finalize

fun lifecycle_step ::
  "('d, 'e, 'u) env \<Rightarrow> lifecycle_op \<Rightarrow> ('d, 'e, 'u) BaseEngine
     \<Rightarrow> ('d, 'e, 'u) BaseEngine \<times> error option" where
  "lifecycle_step h Initialize s = initialize h s"
| "lifecycle_step h Prepare s = prepare h s"
| "lifecycle_step h (Iterate num) s = iterate h num s"
| "lifecycle_step h Finalize s = finalize h s"

fun run ::
  "('d, 'e, 'u) env \<Rightarrow> lifecycle_op list \<Rightarrow> ('d, 'e, 'u) BaseEngine
     \<Rightarrow> ('d, 'e, 'u) BaseEngine \<times> error option" where
  "run h [] s = (s, None)"
| "run h (x # xs) s =
     (case lifecycle_step h x s of
        (s', Some e) \<Rightarrow> (s', Some e)
      | (s', None) \<Rightarrow> run h xs s')"

text \<open>The counter, the error history and the list of iteration records agree:
  \<open>curiter == len(errorlist) == len(itermeta)\<close>.\<close>

definition counters_agree :: "('d, 'e, 'u) BaseEngine \<Rightarrow> bool" where
  "counters_agree s =
     (case (curiter s, errorlist s) of
        (Some c, Some el) \<Rightarrow> c = int (length el) \<and> length (itermeta s) = length el
      | _ \<Rightarrow> False)"

text \<open>The counter is within the budget \<open>numiter\<close>, and \<open>finished\<close> is set exactly
  when the counter has reached it.\<close>

definition within_budget :: "('d, 'e, 'u) BaseEngine \<Rightarrow> bool" where
  "within_budget s =
     (case curiter s of
        None \<Rightarrow> False
      | Some c \<Rightarrow> c \<le> numiter s \<and> (finished s = (c = numiter s)))"

text \<open>The counter is within the budget, and \<open>finished\<close> is set when the counter has
  reached it (the counter never passes the budget without \<open>finished\<close> being set).\<close>

definition budget_kept :: "('d, 'e, 'u) BaseEngine \<Rightarrow> bool" where
  "budget_kept s =
     (case curiter s of
        None \<Rightarrow> False
      | Some c \<Rightarrow> c \<le> numiter s \<and> (c = numiter s \<longrightarrow> finished s))"

text \<open>In the run of the calls \<open>ops\<close> from the engine \<open>s\<close>, none of the calls listed in
  \<open>forbidden\<close> is made on a finished engine.\<close>

fun never_on_finished ::
  "lifecycle_op list \<Rightarrow> ('d, 'e, 'u) env \<Rightarrow> lifecycle_op list \<Rightarrow> ('d, 'e, 'u) BaseEngine
     \<Rightarrow> bool" where
  "never_on_finished forbidden h [] s = True"
| "never_on_finished forbidden h (x # xs) s =
     (\<not> (finished s \<and> x \<in> set forbidden) \<and>
      (case lifecycle_step h x s of
         (s', Some e) \<Rightarrow> True
       | (s', None) \<Rightarrow> never_on_finished forbidden h xs s'))"

text \<open>An engine for concrete evaluation: its hooks change nothing, \<open>engine_iterate\<close>
  returns the error value 0, the clock stands still, the probe has no storage and
  MPI is not enabled.\<close>

definition still_clock :: "unit \<Rightarrow> real" where
  "still_clock d = 0"

definition no_masks :: "real \<Rightarrow> unit \<Rightarrow> (string \<times> unit) list" where
  "no_masks supp d = []"

definition hook_pass :: "unit \<Rightarrow> error option \<times> unit" where
  "hook_pass d = (None, d)"

definition hook_iterate_zero :: "unit \<Rightarrow> (error + int) \<times> unit" where
  "hook_iterate_zero d = (Inr 0, d)"

definition plain_env :: "(unit, int, unit) env" where
  "plain_env =
     \<lparr>engine_initialize = hook_pass,
      engine_prepare = hook_pass,
      engine_iterate = hook_iterate_zero,
      engine_finalize = hook_pass,
      class_name = ''Plain'',
      clock = still_clock,
      support_masks = no_masks,
      MPIenabled = False\<rparr>"

section \<open>Properties of the load manager\<close>

subsection \<open>The rank lookup and the loop over the ids\<close>

lemma select_map_upt:
  "length cs = P \<Longrightarrow> select (map f cs) [0..<P] = filter (\<lambda>r. f (cs ! r)) [0..<P]"
proof -
  assume len: "length cs = P"
  have "zip [0..<P] (map f cs) = map (\<lambda>r. (r, f (cs ! r))) [0..<P]"
    using len by (intro nth_equalityI) simp_all
  then show ?thesis
    by (simp add: select_def filter_map comp_def)
qed

lemma case_filter_find:
  "(case filter Q xs of [] \<Rightarrow> None | x # _ \<Rightarrow> Some x) = List.find Q xs"
  by (induction xs) simp_all

lemma first_rank_find:
  "length cs = P \<Longrightarrow> first_rank P cs i = List.find (\<lambda>r. int i < cs ! r) [0..<P]"
  by (simp add: first_rank_def select_map_upt case_filter_find)

lemma first_rank_Some_iff:
  assumes "length cs = P"
  shows "first_rank P cs i = Some r \<longleftrightarrow>
           r < P \<and> int i < cs ! r \<and> (\<forall>r'<r. \<not> int i < cs ! r')"
  using assms by (auto simp: first_rank_find find_Some_iff)

lemma first_rank_None_iff:
  assumes "length cs = P"
  shows "first_rank P cs i = None \<longleftrightarrow> (\<forall>r<P. \<not> int i < cs ! r)"
  using assms by (auto simp: first_rank_find find_None_iff)

lemma first_rank_mono:
  assumes "length cs = P" "i \<le> j" "first_rank P cs i = Some r" "first_rank P cs j = Some r'"
  shows "r \<le> r'"
proof (rule ccontr)
  assume "\<not> r \<le> r'"
  then have "r' < r" by simp
  moreover have "int i < cs ! r'"
    using assms by (auto simp: first_rank_Some_iff)
  ultimately show False
    using assms(1,3) by (auto simp: first_rank_Some_iff)
qed

lemma assign_loop_out:
  assumes "assign_loop P cs (enumerate n ids) out rk = Inr (out', rk')" "length out = P" "length cs = P"
  shows "out' = map (\<lambda>r. out ! r @ filter (\<lambda>i. first_rank P cs i = Some r) [n..<n + length ids]) [0..<P]"
  using assms
proof (induction ids arbitrary: n out rk)
  case Nil
  then show ?case by (auto intro: nth_equalityI)
next
  case (Cons k ids)
  from Cons.prems obtain r where r: "first_rank P cs n = Some r"
    and rest: "assign_loop P cs (enumerate (Suc n) ids) (out[r := out ! r @ [n]]) (rk(k \<mapsto> r)) = Inr (out', rk')"
    by (auto split: option.splits)
  have rP: "r < P" using r Cons.prems(3) by (simp add: first_rank_Some_iff)
  have upt: "[n..<n + length (k # ids)] = n # [Suc n..<Suc n + length ids]"
    using upt_conv_Cons[of n "n + length (k # ids)"] by simp
  have "out' = map (\<lambda>r'. (out[r := out ! r @ [n]]) ! r' @
                 filter (\<lambda>i. first_rank P cs i = Some r') [Suc n..<Suc n + length ids]) [0..<P]"
    using Cons.IH[OF rest] Cons.prems(2,3) by simp
  also have "\<dots> = map (\<lambda>r'. out ! r' @
                 filter (\<lambda>i. first_rank P cs i = Some r') [n..<n + length (k # ids)]) [0..<P]"
    unfolding upt using r rP Cons.prems(2)
    by (intro map_cong refl) (auto simp: nth_list_update)
  finally show ?case .
qed

lemma assign_loop_succeeds:
  assumes "\<forall>i. n \<le> i \<and> i < n + length ids \<longrightarrow> first_rank P cs i \<noteq> None"
  shows "\<exists>out' rk'. assign_loop P cs (enumerate n ids) out rk = Inr (out', rk')"
  using assms
proof (induction ids arbitrary: n out rk)
  case Nil
  then show ?case by simp
next
  case (Cons k ids)
  from Cons.prems obtain r where r: "first_rank P cs n = Some r" by force
  have "\<forall>i. Suc n \<le> i \<and> i < Suc n + length ids \<longrightarrow> first_rank P cs i \<noteq> None"
    using Cons.prems by simp
  from Cons.IH[OF this] show ?case using r by simp
qed

lemma filter_sorted_split:
  "sorted (map h xs) \<Longrightarrow>
     filter (\<lambda>i. h i < P) xs @ filter (\<lambda>i. h i = P) xs = filter (\<lambda>i. h i < Suc P) xs"
proof (induction xs)
  case Nil
  then show ?case by simp
next
  case (Cons x xs)
  then have IH: "filter (\<lambda>i. h i < P) xs @ filter (\<lambda>i. h i = P) xs = filter (\<lambda>i. h i < Suc P) xs"
    by simp
  show ?case
  proof (cases "h x < P")
    case True
    then show ?thesis using IH by simp
  next
    case False
    then have "\<forall>y\<in>set xs. \<not> h y < P" using Cons.prems by auto
    then have "filter (\<lambda>i. h i < P) xs = []" by simp
    then show ?thesis using IH False by (auto simp: less_Suc_eq)
  qed
qed

lemma concat_blocks:
  "sorted (map h xs) \<Longrightarrow>
     concat (map (\<lambda>r. filter (\<lambda>i. h i = r) xs) [0..<P]) = filter (\<lambda>i. h i < P) xs"
  by (induction P) (simp_all add: filter_sorted_split)


lemma assign_loop_lookups:
  assumes "assign_loop P cs (enumerate n ids) out rk = Inr (out', rk')"
  shows "\<forall>i. n \<le> i \<and> i < n + length ids \<longrightarrow> first_rank P cs i \<noteq> None"
  using assms
proof (induction ids arbitrary: n out rk)
  case Nil
  then show ?case by auto
next
  case (Cons k ids)
  from Cons.prems obtain r where r: "first_rank P cs n = Some r"
    and rest: "assign_loop P cs (enumerate (Suc n) ids) (out[r := out ! r @ [n]]) (rk(k \<mapsto> r)) = Inr (out', rk')"
    by (auto split: option.splits)
  have IH: "\<forall>i. Suc n \<le> i \<and> i < Suc n + length ids \<longrightarrow> first_rank P cs i \<noteq> None"
    by (rule Cons.IH[OF rest])
  show ?case
  proof (intro allI impI)
    fix i assume i: "n \<le> i \<and> i < n + length (k # ids)"
    show "first_rank P cs i \<noteq> None"
    proof (cases "i = n")
      case True
      then show ?thesis using r by simp
    next
      case False
      then have "Suc n \<le> i \<and> i < Suc n + length ids" using i by simp
      then show ?thesis using IH by blast
    qed
  qed
qed


lemma blocks_concat:
  assumes lcs: "length cs = P" and tot: "\<forall>i<N. \<exists>r<P. first_rank P cs i = Some r"
  shows "concat (map (\<lambda>r. filter (\<lambda>i. first_rank P cs i = Some r) [0..<N]) [0..<P]) = [0..<N]"
proof -
  define h where "h = (\<lambda>i. the (first_rank P cs i))"
  have hS: "first_rank P cs i = Some (h i)" if "i < N" for i
    using tot that by (auto simp: h_def)
  have hP: "h i < P" if "i < N" for i
    using tot that by (auto simp: h_def)
  have srt: "sorted (map h [0..<N])"
    unfolding sorted_iff_nth_mono
  proof (intro allI impI)
    fix i j assume "i \<le> j" "j < length (map h [0..<N])"
    then have "i < N" "j < N" by simp_all
    then show "map h [0..<N] ! i \<le> map h [0..<N] ! j"
      using first_rank_mono[OF lcs \<open>i \<le> j\<close> hS hS] by simp
  qed
  have "map (\<lambda>r. filter (\<lambda>i. first_rank P cs i = Some r) [0..<N]) [0..<P] =
        map (\<lambda>r. filter (\<lambda>i. h i = r) [0..<N]) [0..<P]"
    by (intro map_cong refl filter_cong) (auto simp: hS)
  then have "concat (map (\<lambda>r. filter (\<lambda>i. first_rank P cs i = Some r) [0..<N]) [0..<P]) =
          filter (\<lambda>i. h i < P) [0..<N]"
    by (simp only: concat_blocks[OF srt])
  also have "\<dots> = [0..<N]"
    using hP by (intro filter_True) simp
  finally show ?thesis .
qed

lemma argmin_Some:
  "xs \<noteq> [] \<Longrightarrow> \<exists>j<length xs. argmin xs = Some j \<and> (\<forall>i<length xs. xs ! j \<le> xs ! i) \<and>
      (\<forall>i<j. xs ! j < xs ! i)"
proof (induction xs)
  case Nil
  then show ?case by simp
next
  case (Cons x xs)
  show ?case
  proof (cases "xs = []")
    case True
    then show ?thesis by simp
  next
    case False
    from Cons.IH[OF False] obtain j where j: "j < length xs" "argmin xs = Some j"
      "\<forall>i<length xs. xs ! j \<le> xs ! i" "\<forall>i<j. xs ! j < xs ! i" by blast
    show ?thesis
    proof (cases "xs ! j < x")
      case True
      have "\<forall>i<length (x # xs). (x # xs) ! Suc j \<le> (x # xs) ! i"
        using j(3) True by (auto simp: nth_Cons split: nat.splits)
      moreover have "\<forall>i<Suc j. (x # xs) ! Suc j < (x # xs) ! i"
        using j(4) True by (auto simp: nth_Cons split: nat.splits)
      ultimately show ?thesis using j(1,2) True
        by (intro exI[of _ "Suc j"]) simp
    next
      case False
      have "\<forall>i<length (x # xs). (x # xs) ! 0 \<le> (x # xs) ! i"
      proof (intro allI impI)
        fix i assume "i < length (x # xs)"
        then show "(x # xs) ! 0 \<le> (x # xs) ! i"
          using j(3) False by (cases i) (auto intro: order_trans[of x "xs ! j"])
      qed
      then show ?thesis using j(2) False
        by (intro exI[of _ 0]) simp
    qed
  qed
qed


lemma block_of_upt:
  assumes "concat xss = [0..<N]" "xs \<in> set xss"
  shows "\<exists>a b. xs = [a..<b]"
proof -
  from assms(2) obtain yss zss where "xss = yss @ xs # zss"
    by (auto dest: split_list)
  then have eq: "[0..<N] = concat yss @ xs @ concat zss"
    using assms(1) by simp
  define us where "us = concat yss"
  define vs where "vs = concat zss"
  have eq': "[0..<N] = us @ xs @ vs" using eq by (simp add: us_def vs_def)
  have "length [0..<N] = length (us @ xs @ vs)" by (simp only: eq')
  then have le: "length us + length xs \<le> N" by simp
  have "xs = take (length xs) (drop (length us) (us @ xs @ vs))" by simp
  also have "\<dots> = take (length xs) (drop (length us) [0..<N])" by (simp only: eq')
  also have "\<dots> = [length us..<length us + length xs]"
    using le by (simp add: drop_upt take_upt)
  finally show ?thesis by blast
qed


subsection \<open>The array operations over the integers\<close>

lemma length_cumsum_from_exact: "length (cumsum_from_exact a xs) = length xs"
  by (induction xs arbitrary: a) simp_all

lemma cumsum_from_exact_nth:
  "r < length xs \<Longrightarrow> cumsum_from_exact a xs ! r = a + sum_list (take (Suc r) xs)"
proof (induction xs arbitrary: a r)
  case Nil
  then show ?case by simp
next
  case (Cons x xs)
  then show ?case by (cases r) simp_all
qed

lemma length_cumsum_exact: "length (cumsum_exact xs) = length xs"
  by (simp add: cumsum_exact_def length_cumsum_from_exact)

lemma cumsum_exact_nth: "r < length xs \<Longrightarrow> cumsum_exact xs ! r = sum_list (take (Suc r) xs)"
  by (simp add: cumsum_exact_def cumsum_from_exact_nth)

lemma cumsum_exact_last: "xs \<noteq> [] \<Longrightarrow> cumsum_exact xs ! (length xs - 1) = sum_list xs"
  by (simp add: cumsum_exact_nth)

lemma length_masked_assign: "length (masked_assign li vs) = length li"
  by (induction li arbitrary: vs) (simp_all split: list.splits)

lemma sum_list_masked_assign:
  "length vs = length (filter id li) \<Longrightarrow> sum_list (masked_assign li vs) = sum_list vs"
proof (induction li arbitrary: vs)
  case Nil
  then show ?case by simp
next
  case (Cons b li)
  then show ?case by (cases vs) (auto split: if_splits)
qed

lemma masked_assign_empty: "masked_assign li [] = replicate (length li) 0"
  by (induction li) simp_all

lemma length_select:
  "length li = length ld \<Longrightarrow> length (select li ld) = length (filter id li)"
proof (induction li ld rule: list_induct2)
  case Nil
  then show ?case by (simp add: select_def)
next
  case (Cons b li l ld)
  then show ?case by (simp add: select_def)
qed

lemma select_Cons:
  "select (b # li) (l # ld) = (if b then l # select li ld else select li ld)"
  by (simp add: select_def)

lemma select_Nil: "select [] ld = []"
  by (simp add: select_def)

lemma masked_assign_rel:
  "length li = length ld \<Longrightarrow> list_all2 R (select li ld) vs \<Longrightarrow>
     list_all2 (\<lambda>(b, l) v. if b then R l v else v = 0) (zip li ld) (masked_assign li vs)"
proof (induction li ld arbitrary: vs rule: list_induct2)
  case Nil
  then show ?case by simp
next
  case (Cons b li l ld)
  show ?case
  proof (cases b)
    case True
    with Cons.prems obtain v vs' where vs: "vs = v # vs'" and "R l v" and "list_all2 R (select li ld) vs'"
      by (auto simp: select_Cons list_all2_Cons1)
    then show ?thesis using True Cons.IH by simp
  next
    case False
    then show ?thesis using Cons by (simp add: select_Cons)
  qed
qed

lemma length_bump_tail_exact: "length (bump_tail_exact xs rem) = length xs"
  by (simp add: bump_tail_exact_def Let_def)

lemma bump_tail_exact_nth:
  "j < length xs \<Longrightarrow> 0 \<le> rem \<Longrightarrow>
     bump_tail_exact xs rem ! j = (if int (length xs) - rem \<le> int j then xs ! j + 1 else xs ! j)"
  by (auto simp: bump_tail_exact_def Let_def nth_enumerate_eq max_def)

lemma bump_tail_exact_rel:
  assumes "0 \<le> rem"
  shows "list_all2 (\<lambda>x y. y = x \<or> (y = x + 1 \<and> 0 < rem)) xs (bump_tail_exact xs rem)"
  unfolding list_all2_conv_all_nth
proof (intro conjI allI impI)
  show "length xs = length (bump_tail_exact xs rem)" by (simp add: length_bump_tail_exact)
next
  fix j assume "j < length xs"
  then show "bump_tail_exact xs rem ! j = xs ! j \<or> bump_tail_exact xs rem ! j = xs ! j + 1 \<and> 0 < rem"
    using assms by (auto simp: bump_tail_exact_nth)
qed

lemma sum_list_map_Suc: "sum_list (map (\<lambda>x. x + 1) (ys :: int list)) = sum_list ys + int (length ys)"
  by (induction ys) simp_all

lemma bump_tail_exact_take_drop:
  assumes "0 \<le> rem" "rem \<le> int (length xs)"
  shows "bump_tail_exact xs rem =
           take (length xs - nat rem) xs @ map (\<lambda>x. x + 1) (drop (length xs - nat rem) xs)"
proof (rule nth_equalityI)
  show "length (bump_tail_exact xs rem) =
          length (take (length xs - nat rem) xs @ map (\<lambda>x. x + 1) (drop (length xs - nat rem) xs))"
    by (simp add: length_bump_tail_exact)
next
  fix j assume "j < length (bump_tail_exact xs rem)"
  then have j: "j < length xs" by (simp add: length_bump_tail_exact)
  show "bump_tail_exact xs rem ! j =
          (take (length xs - nat rem) xs @ map (\<lambda>x. x + 1) (drop (length xs - nat rem) xs)) ! j"
  proof (cases "int (length xs) - rem \<le> int j")
    case True
    then have "\<not> j < length xs - nat rem" using assms by linarith
    then show ?thesis using True j assms by (simp add: bump_tail_exact_nth nth_append)
  next
    case False
    then have "j < length xs - nat rem" using assms by linarith
    then show ?thesis using False j assms by (simp add: bump_tail_exact_nth nth_append)
  qed
qed

lemma sum_list_bump_tail_exact:
  assumes "0 \<le> rem" "rem \<le> int (length xs)"
  shows "sum_list (bump_tail_exact xs rem) = sum_list xs + rem"
proof -
  let ?k = "length xs - nat rem"
  have "sum_list (bump_tail_exact xs rem) = sum_list (take ?k xs) + (sum_list (drop ?k xs) + int (length (drop ?k xs)))"
    by (simp add: bump_tail_exact_take_drop[OF assms] sum_list_map_Suc)
  also have "\<dots> = (sum_list (take ?k xs) + sum_list (drop ?k xs)) + int (length xs - ?k)"
    by simp
  also have "sum_list (take ?k xs) + sum_list (drop ?k xs) = sum_list xs"
    by (metis append_take_drop_id sum_list_append)
  also have "sum_list xs + int (length xs - ?k) = sum_list xs + rem" using assms by simp
  finally show ?thesis .
qed


subsection \<open>The allocation over the integers\<close>

lemma length_eligible_exact: "length (eligible_exact P ld N) = length ld"
  by (simp add: eligible_exact_def Let_def)

lemma eligible_exact_nth:
  "r < length ld \<Longrightarrow> eligible_exact P ld N ! r = (sum_list ld + N > ld ! r * int P)"
  by (simp add: eligible_exact_def Let_def)

lemma length_select_eligible_exact:
  "length (filter id (eligible_exact P ld N)) = length (select (eligible_exact P ld N) ld)"
  by (simp add: length_select length_eligible_exact)

lemma sum_list_lower: "\<forall>x\<in>set xs. (a::int) \<le> x \<Longrightarrow> a * int (length xs) \<le> sum_list xs"
  by (induction xs) (simp_all add: algebra_simps)

lemma select_eligible_exact_nonempty:
  assumes "length ld = P" "0 < P" "1 \<le> N"
  shows "0 < length (select (eligible_exact P ld N) ld)"
proof -
  from assms have ne: "ld \<noteq> []" by auto
  define m where "m = Min (set ld)"
  have m_in: "m \<in> set ld" unfolding m_def using ne by (intro Min_in) simp_all
  have "\<forall>x\<in>set ld. m \<le> x" unfolding m_def by simp
  then have "m * int P \<le> sum_list ld" using sum_list_lower[of ld m] assms(1) by simp
  then have "sum_list ld + N > m * int P" using assms(3) by simp
  then have "True \<in> set (eligible_exact P ld N)"
    using m_in by (force simp: eligible_exact_def Let_def)
  then have "filter id (eligible_exact P ld N) \<noteq> []"
    by (auto simp: filter_empty_conv)
  then show ?thesis by (simp add: length_select_eligible_exact[symmetric])
qed

lemma sum_list_const_minus:
  "sum_list (map (\<lambda>l. q - l) (xs::int list)) = q * int (length xs) - sum_list xs"
  by (induction xs) (simp_all add: algebra_simps)

lemma sum_list_const: "sum_list (map (\<lambda>l. c) xs) = (c::int) * int (length xs)"
  by (induction xs) (simp_all add: algebra_simps)

lemma div_sub_mult: "(k::int) \<noteq> 0 \<Longrightarrow> (T - l * k) div k = T div k - l"
  using div_mult_self1[of k T "- l"] by simp

lemma mod_sub_mult: "(T - l * (k::int)) mod k = T mod k"
  using mod_mult_self1[of T "- l" k] by simp

lemma bulk_part_exact_eq:
  assumes sel: "sel = select (eligible_exact P ld N) ld"
    and k: "k = int (length sel)"
    and T: "T = sum_list sel + N"
    and pos: "0 < k"
  shows "bulk_part_exact P ld N =
           masked_assign (eligible_exact P ld N) (bump_tail_exact (map (\<lambda>l. T div k - l) sel) (T mod k))"
proof -
  have k0: "k \<noteq> 0" using pos by simp
  have ns: "int (length (filter id (eligible_exact P ld N))) = k"
    by (simp add: k sel length_select_eligible_exact)
  have ip: "map (\<lambda>p. p div k) (map (\<lambda>l. T - l * k) sel) = map (\<lambda>l. T div k - l) sel"
    using k0 by (simp add: div_sub_mult)
  have "sum_list (map (\<lambda>p. p mod k) (map (\<lambda>l. T - l * k) sel)) = (T mod k) * k"
    by (simp add: comp_def mod_sub_mult sum_list_const k)
  then have rm: "sum_list (map (\<lambda>p. p mod k) (map (\<lambda>l. T - l * k) sel)) div k = T mod k"
    using k0 by simp
  have "bulk_part_exact P ld N =
          masked_assign (eligible_exact P ld N)
            (bump_tail_exact (map (\<lambda>p. p div k) (map (\<lambda>l. T - l * k) sel))
               (sum_list (map (\<lambda>p. p mod k) (map (\<lambda>l. T - l * k) sel)) div k))"
    unfolding bulk_part_exact_def Let_def ns by (simp only: sel[symmetric] T[symmetric])
  then show ?thesis by (simp only: ip rm)
qed

lemma bulk_part_exact_none:
  assumes "length (select (eligible_exact P ld N) ld) = 0"
  shows "bulk_part_exact P ld N = replicate (length ld) 0"
  using assms
  by (simp add: bulk_part_exact_def Let_def bump_tail_exact_def masked_assign_empty length_eligible_exact)

lemma length_bulk_part_exact: "length (bulk_part_exact P ld N) = length ld"
  by (simp add: bulk_part_exact_def Let_def length_masked_assign length_eligible_exact)

lemma sum_list_bulk_part_exact:
  assumes pos: "0 < length (select (eligible_exact P ld N) ld)"
  shows "sum_list (bulk_part_exact P ld N) = N"
proof -
  define sel where "sel = select (eligible_exact P ld N) ld"
  define k where "k = int (length sel)"
  define T where "T = sum_list sel + N"
  have k0: "0 < k" using pos by (simp add: k_def sel_def)
  have rem: "0 \<le> T mod k" "T mod k \<le> int (length (map (\<lambda>l. T div k - l) sel))"
    using k0 by (simp_all add: k_def[symmetric] less_imp_le)
  have "length (bump_tail_exact (map (\<lambda>l. T div k - l) sel) (T mod k)) =
          length (filter id (eligible_exact P ld N))"
    by (simp add: length_bump_tail_exact length_select_eligible_exact sel_def)
  then have "sum_list (bulk_part_exact P ld N) =
          sum_list (bump_tail_exact (map (\<lambda>l. T div k - l) sel) (T mod k))"
    unfolding bulk_part_exact_eq[OF sel_def k_def T_def k0]
    by (rule sum_list_masked_assign)
  also have "\<dots> = sum_list (map (\<lambda>l. T div k - l) sel) + T mod k"
    by (rule sum_list_bump_tail_exact[OF rem])
  also have "\<dots> = (T div k) * k - sum_list sel + T mod k"
    by (simp add: sum_list_const_minus k_def)
  also have "\<dots> = T - sum_list sel" by simp
  finally show ?thesis by (simp add: T_def)
qed

lemma bulk_part_exact_nth:
  assumes sel: "sel = select (eligible_exact P ld N) ld"
    and k: "k = int (length sel)"
    and T: "T = sum_list sel + N"
    and pos: "0 < k" and r: "r < length ld"
  shows "if sum_list ld + N > ld ! r * int P
         then bulk_part_exact P ld N ! r = T div k - ld ! r \<or>
              (bulk_part_exact P ld N ! r = T div k - ld ! r + 1 \<and> 0 < T mod k)
         else bulk_part_exact P ld N ! r = 0"
proof -
  define R where "R = (\<lambda>l v. v = T div k - l \<or> (v = T div k - l + 1 \<and> 0 < T mod k))"
  have rem: "0 \<le> T mod k" using pos by simp
  have "list_all2 R sel (bump_tail_exact (map (\<lambda>l. T div k - l) sel) (T mod k))"
    using bump_tail_exact_rel[OF rem, of "map (\<lambda>l. T div k - l) sel"]
    by (simp add: list_all2_map1 R_def)
  then have "list_all2 R (select (eligible_exact P ld N) ld)
               (bump_tail_exact (map (\<lambda>l. T div k - l) sel) (T mod k))"
    by (simp only: sel)
  then have "list_all2 (\<lambda>(b, l) v. if b then R l v else v = 0) (zip (eligible_exact P ld N) ld)
               (masked_assign (eligible_exact P ld N) (bump_tail_exact (map (\<lambda>l. T div k - l) sel) (T mod k)))"
    by (intro masked_assign_rel) (simp_all add: length_eligible_exact)
  then have "list_all2 (\<lambda>(b, l) v. if b then R l v else v = 0) (zip (eligible_exact P ld N) ld)
               (bulk_part_exact P ld N)"
    by (simp only: bulk_part_exact_eq[OF sel k T pos])
  from list_all2_nthD[OF this, of r] r
  have "if sum_list ld + N > ld ! r * int P
        then R (ld ! r) (bulk_part_exact P ld N ! r) else bulk_part_exact P ld N ! r = 0"
    by (simp add: length_eligible_exact eligible_exact_nth)
  then show ?thesis unfolding R_def by (auto split: if_splits)
qed


subsection \<open>Allocations are block lengths\<close>

lemma sum_list_bulk_part_exact_total:
  assumes len: "length ld = P" and P: "0 < P" and N: "0 \<le> N"
  shows "sum_list (bulk_part_exact P ld N) = N"
proof (cases "0 < length (select (eligible_exact P ld N) ld)")
  case True
  then show ?thesis by (rule sum_list_bulk_part_exact)
next
  case False
  then have z: "length (select (eligible_exact P ld N) ld) = 0" by simp
  have "\<not> 1 \<le> N" using select_eligible_exact_nonempty[OF len P] False by blast
  then have "N = 0" using N by simp
  moreover have "sum_list (replicate n (0::int)) = 0" for n by (induction n) simp_all
  then have "sum_list (bulk_part_exact P ld N) = 0" by (simp add: bulk_part_exact_none[OF z])
  ultimately show ?thesis by simp
qed

lemma sum_take_mono:
  assumes "\<forall>x\<in>set xs. (0::int) \<le> x" "m \<le> n"
  shows "sum_list (take m xs) \<le> sum_list (take n xs)"
proof -
  have "take n xs = take m xs @ take (n - m) (drop m xs)"
    using assms(2) take_add[of m "n - m" xs] by simp
  moreover have "0 \<le> sum_list (take (n - m) (drop m xs))"
    using assms(1) by (intro sum_list_nonneg) (auto dest!: in_set_takeD in_set_dropD)
  ultimately show ?thesis by simp
qed

lemma sum_take_Suc:
  "r < length xs \<Longrightarrow> sum_list (take (Suc r) xs) = sum_list (take r xs) + (xs ! r :: int)"
  by (simp add: take_Suc_conv_app_nth)

lemma filter_upt_interval:
  assumes "a \<le> b" "b \<le> N"
  shows "filter (\<lambda>i. a \<le> i \<and> i < b) [0..<N] = [a..<b]"
proof (rule sorted_distinct_set_unique)
  show "sorted (filter (\<lambda>i. a \<le> i \<and> i < b) [0..<N])" by (simp add: sorted_wrt_filter)
  show "distinct (filter (\<lambda>i. a \<le> i \<and> i < b) [0..<N])" by simp
  show "sorted [a..<b]" by simp
  show "distinct [a..<b]" by simp
  show "set (filter (\<lambda>i. a \<le> i \<and> i < b) [0..<N]) = set [a..<b]"
    using assms by auto
qed

lemma first_rank_interval:
  assumes nonneg: "\<forall>x\<in>set part. 0 \<le> x" and r: "r < length part"
  shows "first_rank (length part) (cumsum_exact part) i = Some r \<longleftrightarrow>
           sum_list (take r part) \<le> int i \<and> int i < sum_list (take (Suc r) part)"
proof -
  have lc: "length (cumsum_exact part) = length part" by (simp add: length_cumsum_exact)
  have "(\<forall>r'<r. \<not> int i < cumsum_exact part ! r') \<longleftrightarrow> sum_list (take r part) \<le> int i"
  proof
    assume a: "\<forall>r'<r. \<not> int i < cumsum_exact part ! r'"
    show "sum_list (take r part) \<le> int i"
    proof (cases r)
      case 0
      then show ?thesis by simp
    next
      case (Suc r0)
      then have "\<not> int i < cumsum_exact part ! r0" using a by simp
      then show ?thesis using Suc r by (simp add: cumsum_exact_nth)
    qed
  next
    assume b: "sum_list (take r part) \<le> int i"
    show "\<forall>r'<r. \<not> int i < cumsum_exact part ! r'"
    proof (intro allI impI)
      fix r' assume "r' < r"
      then have "sum_list (take (Suc r') part) \<le> sum_list (take r part)"
        by (intro sum_take_mono[OF nonneg]) simp
      then show "\<not> int i < cumsum_exact part ! r'"
        using b r \<open>r' < r\<close> by (simp add: cumsum_exact_nth)
    qed
  qed
  then show ?thesis
    using r by (auto simp: first_rank_Some_iff[OF lc] cumsum_exact_nth)
qed

lemma block_length:
  assumes nonneg: "\<forall>x\<in>set part. 0 \<le> x" and r: "r < length part"
    and sum: "sum_list part = int N"
  shows "int (length (filter (\<lambda>i. first_rank (length part) (cumsum_exact part) i = Some r) [0..<N])) =
           part ! r"
proof -
  define A where "A = sum_list (take r part)"
  define B where "B = sum_list (take (Suc r) part)"
  have A0: "0 \<le> A" unfolding A_def
    using nonneg by (intro sum_list_nonneg) (auto dest!: in_set_takeD)
  have pr: "0 \<le> part ! r" using nonneg r by simp
  have AB: "B = A + part ! r" by (simp add: A_def B_def sum_take_Suc[OF r])
  have "B \<le> sum_list (take (length part) part)"
    unfolding B_def using r by (intro sum_take_mono[OF nonneg]) simp
  then have BN: "B \<le> int N" using sum by simp
  have "filter (\<lambda>i. first_rank (length part) (cumsum_exact part) i = Some r) [0..<N] =
        filter (\<lambda>i. nat A \<le> i \<and> i < nat B) [0..<N]"
    using A0 by (intro filter_cong refl)
      (auto simp: first_rank_interval[OF nonneg r] A_def[symmetric] B_def[symmetric])
  also have "\<dots> = [nat A..<nat B]"
    using A0 AB pr BN by (intro filter_upt_interval) linarith+
  finally show ?thesis using A0 AB pr by simp
qed


lemma select_all:
  "length li = length ld \<Longrightarrow> \<forall>b\<in>set li. b \<Longrightarrow> select li ld = ld"
  by (induction li ld rule: list_induct2) (auto simp: select_Nil select_Cons)

lemma sum_list_replicate_int: "sum_list (replicate n (c::int)) = int n * c"
  by (induction n) (simp_all add: algebra_simps)

lemma bulk_part_exact_equal_load:
  assumes P: "0 < P" and r: "r < P"
  shows "bulk_part_exact P (replicate P L) (int N) ! r = int (N div P) \<or>
         (bulk_part_exact P (replicate P L) (int N) ! r = int (N div P) + 1 \<and> 0 < N mod P)"
proof (cases "N = 0")
  case True
  have "filter id (eligible_exact P (replicate P L) (int N)) = []"
    using True by (simp add: eligible_exact_def Let_def sum_list_replicate_int filter_empty_conv)
  then have "length (select (eligible_exact P (replicate P L) (int N)) (replicate P L)) = 0"
    by (simp add: length_select_eligible_exact[symmetric])
  from bulk_part_exact_none[OF this] show ?thesis using True r by simp
next
  case False
  define ld where "ld = replicate P L"
  define sel where "sel = select (eligible_exact P ld (int N)) ld"
  define k where "k = int (length sel)"
  define T where "T = sum_list sel + int N"
  have all: "\<forall>b\<in>set (eligible_exact P ld (int N)). b"
    using False by (auto simp: eligible_exact_def Let_def ld_def sum_list_replicate_int)
  have sel_ld: "sel = ld"
    unfolding sel_def by (rule select_all[OF _ all]) (simp add: length_eligible_exact)
  have k: "k = int P" by (simp add: k_def sel_ld ld_def)
  have T: "T = L * int P + int N" by (simp add: T_def sel_ld ld_def sum_list_replicate_int)
  have pos: "0 < k" using P k by simp
  have q: "T div k = L + int (N div P)"
    using P by (simp add: T k zdiv_int)
  have m: "T mod k = int (N mod P)"
    by (simp add: T k zmod_int)
  have rl: "r < length ld" using r by (simp add: ld_def)
  have el: "sum_list ld + int N > ld ! r * int P"
    using False r by (simp add: ld_def sum_list_replicate_int)
  from bulk_part_exact_nth[OF sel_def k_def T_def pos rl] el
  have "bulk_part_exact P ld (int N) ! r = T div k - ld ! r \<or>
        (bulk_part_exact P ld (int N) ! r = T div k - ld ! r + 1 \<and> 0 < T mod k)"
    by simp
  then show ?thesis
    using r by (simp add: q m ld_def)
qed

subsection \<open>Wrap-around\<close>

lemma wrap64_id: "int64 x \<Longrightarrow> wrap64 x = x"
  by (simp add: int64_def wrap64_def)

lemma wrap64_shift: "wrap64 (x + 2 ^ 64 * m) = wrap64 x"
proof -
  have "(x + 2 ^ 64 * m + 2 ^ 63) mod 2 ^ 64 = (x + 2 ^ 63 + 2 ^ 64 * m) mod (2 ^ 64 :: int)"
    by (simp add: algebra_simps)
  also have "\<dots> = (x + 2 ^ 63) mod 2 ^ 64"
    by (rule mod_mult_self2)
  finally show ?thesis by (simp add: wrap64_def)
qed

lemma wrap64_form: "\<exists>m. wrap64 x = x + 2 ^ 64 * m"
proof -
  have "(x + 2 ^ 63) mod 2 ^ 64 = (x + 2 ^ 63) - 2 ^ 64 * ((x + 2 ^ 63) div (2 ^ 64 :: int))"
    by (simp add: minus_mult_div_eq_mod)
  then have "wrap64 x = x + 2 ^ 64 * (- ((x + 2 ^ 63) div 2 ^ 64))"
    by (simp add: wrap64_def)
  then show ?thesis by blast
qed

lemma wrap64_add_left: "wrap64 (wrap64 a + b) = wrap64 (a + b)"
proof -
  obtain m where "wrap64 a = a + 2 ^ 64 * m" using wrap64_form by blast
  then have "wrap64 (wrap64 a + b) = wrap64 (a + b + 2 ^ 64 * m)" by (simp add: algebra_simps)
  then show ?thesis by (simp only: wrap64_shift)
qed

lemma wrap64_diff_both: "wrap64 (wrap64 a - wrap64 b) = wrap64 (a - b)"
proof -
  obtain m n where "wrap64 a = a + 2 ^ 64 * m" "wrap64 b = b + 2 ^ 64 * n"
    using wrap64_form by blast
  then have "wrap64 (wrap64 a - wrap64 b) = wrap64 (a - b + 2 ^ 64 * (m - n))"
    by (simp add: algebra_simps)
  then show ?thesis by (simp only: wrap64_shift)
qed

lemma wrap64_idem: "wrap64 (wrap64 a) = wrap64 a"
  using wrap64_add_left[of a 0] by simp

lemma wrap64_cong_add: "wrap64 a' = wrap64 a \<Longrightarrow> wrap64 (a' + x) = wrap64 (a + x)"
  by (metis wrap64_add_left)

lemma map_wrap64_id: "list_all int64 xs \<Longrightarrow> map wrap64 xs = xs"
  by (induction xs) (simp_all add: wrap64_id)

lemma cumsum_from_wrap:
  "wrap64 a' = wrap64 a \<Longrightarrow> cumsum_from a' xs = map wrap64 (cumsum_from_exact a xs)"
proof (induction xs arbitrary: a a')
  case Nil
  then show ?case by simp
next
  case (Cons x xs)
  have e: "wrap64 (a' + x) = wrap64 (a + x)" by (rule wrap64_cong_add[OF Cons.prems])
  have "wrap64 (wrap64 (a' + x)) = wrap64 (a + x)" by (simp add: wrap64_idem e)
  from Cons.IH[OF this] e show ?case by simp
qed

lemma cumsum_wrap: "cumsum xs = map wrap64 (cumsum_exact xs)"
  by (simp add: cumsum_def cumsum_exact_def cumsum_from_wrap)

lemma length_cumsum: "length (cumsum xs) = length xs"
  by (simp add: cumsum_wrap length_cumsum_exact)

lemma length_bulk_part: "length (bulk_part P ld N) = length ld"
  by (simp add: bulk_part_def eligible_def Let_def length_masked_assign)

subsection \<open>Without overflow the code computes the allocation over the integers\<close>

lemma eligible_no_overflow:
  assumes "int64 (sum_list ld + N)" and "list_all (\<lambda>l. int64 (l * int P)) ld"
  shows "eligible P ld N = eligible_exact P ld N"
proof -
  have t: "wrap64 (np_sum ld + N) = sum_list ld + N"
    using assms(1) by (simp add: np_sum_def wrap64_add_left wrap64_id)
  have "map (\<lambda>l. sum_list ld + N > wrap64 (l * int P)) ld =
        map (\<lambda>l. sum_list ld + N > l * int P) ld"
    using assms(2) by (intro map_cong refl) (simp add: list_all_iff wrap64_id)
  then show ?thesis by (simp add: eligible_def eligible_exact_def Let_def t)
qed

lemma bump_tail_no_overflow:
  assumes "int64 (1 + rem)" and "list_all int64 (bump_tail_exact ip rem)"
  shows "bump_tail ip rem = bump_tail_exact ip rem"
proof (rule nth_equalityI)
  show "length (bump_tail ip rem) = length (bump_tail_exact ip rem)"
    by (simp add: bump_tail_def bump_tail_exact_def Let_def)
next
  fix j assume "j < length (bump_tail ip rem)"
  then have j: "j < length ip" by (simp add: bump_tail_def Let_def)
  have w: "wrap64 (1 + rem) = 1 + rem" using assms(1) by (rule wrap64_id)
  have "int64 (bump_tail_exact ip rem ! j)"
    using assms(2) j by (simp add: list_all_length bump_tail_exact_def Let_def)
  then show "bump_tail ip rem ! j = bump_tail_exact ip rem ! j"
    using j by (auto simp: bump_tail_def bump_tail_exact_def Let_def w nth_enumerate_eq wrap64_id
        split: if_splits)
qed

lemma bulk_part_no_overflow:
  assumes "no_overflow P ld N"
  shows "bulk_part P ld N = bulk_part_exact P ld N"
    and "eligible P ld N = eligible_exact P ld N"
    and "cumsum (bulk_part P ld N) = cumsum_exact (bulk_part_exact P ld N)"
    and "map2 (\<lambda>l p. wrap64 (l + p)) ld (bulk_part P ld N) = map2 (+) ld (bulk_part_exact P ld N)"
proof -
  define li where "li = eligible_exact P ld N"
  define nsize where "nsize = int (length (filter id li))"
  define T where "T = sum_list (select li ld) + N"
  define partition where "partition = map (\<lambda>l. T - l * nsize) (select li ld)"
  define ipart where "ipart = map (\<lambda>p. p div nsize) partition"
  define rem where "rem = sum_list (map (\<lambda>p. p mod nsize) partition) div nsize"
  have h: "int64 (sum_list ld + N)" "list_all (\<lambda>l. int64 (l * int P)) ld"
    "list_all int64 partition" "int64 (sum_list (map (\<lambda>p. p mod nsize) partition))"
    "int64 (1 + rem)" "list_all int64 (bump_tail_exact ipart rem)"
    "list_all int64 (map2 (+) ld (bulk_part_exact P ld N))"
    "list_all int64 (cumsum_exact (bulk_part_exact P ld N))"
    using assms
    by (simp_all add: no_overflow_def Let_def li_def nsize_def T_def partition_def ipart_def rem_def)
  show e: "eligible P ld N = eligible_exact P ld N"
    by (rule eligible_no_overflow[OF h(1,2)])
  have p: "map (\<lambda>l. wrap64 (wrap64 (np_sum (select li ld) + N) - wrap64 (l * nsize))) (select li ld)
             = partition"
  proof -
    have "wrap64 (wrap64 (np_sum (select li ld) + N) - wrap64 (l * nsize)) = T - l * nsize"
      if "l \<in> set (select li ld)" for l
    proof -
      have "int64 (T - l * nsize)"
        using h(3) that by (auto simp: partition_def list_all_iff)
      moreover have "wrap64 (wrap64 (np_sum (select li ld) + N) - wrap64 (l * nsize)) =
              wrap64 (T - l * nsize)"
        by (simp add: wrap64_diff_both np_sum_def wrap64_add_left T_def)
      ultimately show ?thesis by (simp add: wrap64_id)
    qed
    then show ?thesis unfolding partition_def by (intro map_cong refl) simp
  qed
  have r: "np_sum (map (\<lambda>p. p mod nsize) partition) div nsize = rem"
    using h(4) by (simp add: np_sum_def wrap64_id rem_def)
  have b: "bump_tail ipart rem = bump_tail_exact ipart rem"
    by (rule bump_tail_no_overflow[OF h(5,6)])
  have "bulk_part P ld N = masked_assign li (bump_tail ipart rem)"
    unfolding bulk_part_def Let_def e li_def[symmetric] nsize_def[symmetric]
    by (simp only: p r ipart_def[symmetric])
  also have "\<dots> = bulk_part_exact P ld N"
    unfolding bulk_part_exact_def Let_def li_def[symmetric] nsize_def[symmetric] T_def[symmetric]
      partition_def[symmetric] ipart_def[symmetric] rem_def[symmetric]
    by (simp only: b)
  finally show bp: "bulk_part P ld N = bulk_part_exact P ld N" .
  show "cumsum (bulk_part P ld N) = cumsum_exact (bulk_part_exact P ld N)"
    using h(8) by (simp add: bp cumsum_wrap map_wrap64_id)
  have "map2 (\<lambda>l p. wrap64 (l + p)) ld (bulk_part_exact P ld N) =
        map wrap64 (map2 (+) ld (bulk_part_exact P ld N))"
    by (simp add: case_prod_unfold)
  also have "\<dots> = map2 (+) ld (bulk_part_exact P ld N)"
    by (rule map_wrap64_id[OF h(7)])
  finally show "map2 (\<lambda>l p. wrap64 (l + p)) ld (bulk_part P ld N) =
        map2 (+) ld (bulk_part_exact P ld N)"
    by (simp only: bp)
qed

subsection \<open>The result of \<open>assign\<close>\<close>

lemma first_rank_total:
  assumes len: "length ld = P" and P: "0 < P" and i: "i < length ids"
  shows "first_rank P (cumsum_exact (bulk_part_exact P ld (int (length ids)))) i \<noteq> None"
proof -
  let ?N = "int (length ids)"
  let ?part = "bulk_part_exact P ld ?N"
  have N: "1 \<le> ?N" using i by simp
  have lp: "length ?part = P" by (simp add: length_bulk_part_exact len)
  then have ne: "?part \<noteq> []" using P by auto
  have "sum_list ?part = ?N"
    by (rule sum_list_bulk_part_exact[OF select_eligible_exact_nonempty[OF len P N]])
  then have "cumsum_exact ?part ! (P - 1) = ?N"
    using cumsum_exact_last[OF ne] lp by simp
  then have "int i < cumsum_exact ?part ! (P - 1)" using i by simp
  moreover have "P - 1 < P" using P by simp
  ultimately show ?thesis
    using lp by (auto simp: first_rank_None_iff length_cumsum_exact)
qed

lemma assign_bulk_succeeds:
  assumes len: "length (load s) = P" and P: "0 < P"
    and fit: "no_overflow P (load s) (int (length ids))"
  shows "\<exists>s' out. assign P (Some ids) s = Inr (s', out)"
proof -
  let ?cs = "cumsum (bulk_part P (load s) (int (length ids)))"
  have cs: "?cs = cumsum_exact (bulk_part_exact P (load s) (int (length ids)))"
    by (rule bulk_part_no_overflow(3)[OF fit])
  have "\<forall>i. 0 \<le> i \<and> i < 0 + length ids \<longrightarrow> first_rank P ?cs i \<noteq> None"
    unfolding cs using first_rank_total[OF len P, of _ ids] by auto
  from assign_loop_succeeds[OF this, of "replicate P []" "rank_of s"]
  obtain out' rk' where "assign_loop P ?cs (enumerate 0 ids) (replicate P []) (rank_of s) = Inr (out', rk')"
    by blast
  then show ?thesis by (simp add: assign_def Let_def)
qed

lemma assign_bulk_result:
  assumes res: "assign P (Some ids) s = Inr (s', out)" and len: "length (load s) = P"
  defines "cs \<equiv> cumsum (bulk_part P (load s) (int (length ids)))"
  shows "out = map (\<lambda>r. filter (\<lambda>i. first_rank P cs i = Some r) [0..<length ids]) [0..<P]"
    and "\<forall>i<length ids. \<exists>r<P. first_rank P cs i = Some r"
    and "load s' = map2 (\<lambda>l p. wrap64 (l + p)) (load s) (bulk_part P (load s) (int (length ids)))"
proof -
  from res obtain rk' where loop: "assign_loop P cs (enumerate 0 ids) (replicate P []) (rank_of s) = Inr (out, rk')"
    and s': "s' = \<lparr>load = map2 (\<lambda>l p. wrap64 (l + p)) (load s) (bulk_part P (load s) (int (length ids))),
                  rank_of = rk'\<rparr>"
    by (auto simp: assign_def Let_def cs_def split: sum.splits)
  have lcs: "length cs = P" by (simp add: cs_def length_cumsum length_bulk_part len)
  have "out = map (\<lambda>r. replicate P [] ! r @ filter (\<lambda>i. first_rank P cs i = Some r) [0..<0 + length ids]) [0..<P]"
    by (rule assign_loop_out[OF loop _ lcs]) simp
  also have "\<dots> = map (\<lambda>r. filter (\<lambda>i. first_rank P cs i = Some r) [0..<length ids]) [0..<P]"
    by (intro map_cong refl) simp
  finally show "out = map (\<lambda>r. filter (\<lambda>i. first_rank P cs i = Some r) [0..<length ids]) [0..<P]" .
  show "\<forall>i<length ids. \<exists>r<P. first_rank P cs i = Some r"
  proof (intro allI impI)
    fix i assume "i < length ids"
    then have "first_rank P cs i \<noteq> None" using assign_loop_lookups[OF loop] by simp
    then obtain r where "first_rank P cs i = Some r" by auto
    then show "\<exists>r<P. first_rank P cs i = Some r"
      using lcs by (auto simp: first_rank_Some_iff)
  qed
  show "load s' = map2 (\<lambda>l p. wrap64 (l + p)) (load s) (bulk_part P (load s) (int (length ids)))"
    using s' by simp
qed

lemma assign_bulk_concat:
  assumes res: "assign P (Some ids) s = Inr (s', out)" and len: "length (load s) = P"
  shows "concat out = [0..<length ids]" and "length out = P"
proof -
  define cs where "cs = cumsum (bulk_part P (load s) (int (length ids)))"
  have out: "out = map (\<lambda>r. filter (\<lambda>i. first_rank P cs i = Some r) [0..<length ids]) [0..<P]"
    and tot: "\<forall>i<length ids. \<exists>r<P. first_rank P cs i = Some r"
    using assign_bulk_result(1,2)[OF res len] by (simp_all add: cs_def)
  have lcs: "length cs = P" by (simp add: cs_def length_cumsum length_bulk_part len)
  show "length out = P" by (simp add: out)
  show "concat out = [0..<length ids]"
    unfolding out by (rule blocks_concat[OF lcs tot])
qed

lemma assign_bulk_partition:
  assumes res: "assign P (Some ids) s = Inr (s', out)" and len: "length (load s) = P"
  shows "length out = P"
    and "(\<Union>r\<in>{0..<P}. set (out ! r)) = {0..<length ids}"
    and "\<forall>i<length ids. \<exists>!r. r < P \<and> i \<in> set (out ! r)"
    and "\<forall>r<P. distinct (out ! r) \<and> sorted (out ! r)"
proof -
  define cs where "cs = cumsum (bulk_part P (load s) (int (length ids)))"
  have out: "out = map (\<lambda>r. filter (\<lambda>i. first_rank P cs i = Some r) [0..<length ids]) [0..<P]"
    and tot: "\<forall>i<length ids. \<exists>r<P. first_rank P cs i = Some r"
    using assign_bulk_result(1,2)[OF res len] by (simp_all add: cs_def)
  have mem: "i \<in> set (out ! r) \<longleftrightarrow> i < length ids \<and> first_rank P cs i = Some r" if "r < P" for i r
    using that by (simp add: out)
  show "length out = P" by (simp add: out)
  show "(\<Union>r\<in>{0..<P}. set (out ! r)) = {0..<length ids}"
  proof (intro set_eqI iffI)
    fix i assume "i \<in> (\<Union>r\<in>{0..<P}. set (out ! r))"
    then show "i \<in> {0..<length ids}" by (auto simp: mem)
  next
    fix i assume "i \<in> {0..<length ids}"
    then have i: "i < length ids" by simp
    with tot obtain r where "r < P" "first_rank P cs i = Some r" by blast
    then have "r \<in> {0..<P}" "i \<in> set (out ! r)" using i by (simp_all add: mem)
    then show "i \<in> (\<Union>r\<in>{0..<P}. set (out ! r))" by blast
  qed
  show "\<forall>i<length ids. \<exists>!r. r < P \<and> i \<in> set (out ! r)"
  proof (intro allI impI)
    fix i assume i: "i < length ids"
    with tot obtain r where r: "r < P" "first_rank P cs i = Some r" by blast
    show "\<exists>!r. r < P \<and> i \<in> set (out ! r)"
    proof (rule ex1I[of _ r])
      show "r < P \<and> i \<in> set (out ! r)" using r i by (simp add: mem)
    next
      fix r' assume a: "r' < P \<and> i \<in> set (out ! r')"
      then have "first_rank P cs i = Some r'" using mem[of r' i] by blast
      then show "r' = r" using r(2) by simp
    qed
  qed
  show "\<forall>r<P. distinct (out ! r) \<and> sorted (out ! r)"
    by (simp add: out sorted_wrt_filter)
qed

lemma assign_bulk_lengths:
  assumes res: "assign P (Some ids) s = Inr (s', out)" and len: "length (load s) = P"
    and P: "0 < P" and fit: "no_overflow P (load s) (int (length ids))"
    and nonneg: "\<forall>x\<in>set (bulk_part_exact P (load s) (int (length ids))). 0 \<le> x"
    and r: "r < P"
  shows "int (length (out ! r)) = bulk_part_exact P (load s) (int (length ids)) ! r"
proof -
  let ?part = "bulk_part_exact P (load s) (int (length ids))"
  have lp: "length ?part = P" by (simp add: length_bulk_part_exact len)
  have sum: "sum_list ?part = int (length ids)"
    by (rule sum_list_bulk_part_exact_total[OF len P]) simp
  have cs: "cumsum (bulk_part P (load s) (int (length ids))) = cumsum_exact ?part"
    by (rule bulk_part_no_overflow(3)[OF fit])
  have "out ! r = filter (\<lambda>i. first_rank P (cumsum_exact ?part) i = Some r) [0..<length ids]"
    using assign_bulk_result(1)[OF res len] r by (simp add: cs)
  then show ?thesis
    using block_length[OF nonneg _ sum, of r] r lp by simp
qed

lemma assign_anonymous:
  assumes len: "length (load s) = P" and P: "0 < P"
  shows "\<exists>r<P. (\<forall>j<P. load s ! r \<le> load s ! j) \<and> (\<forall>j<P. r < j \<longrightarrow> load s ! r < load s ! j) \<and>
           assign P None s = Inr (s\<lparr>load := (load s)[r := wrap64 (load s ! r + 1)]\<rparr>,
                                  map (\<lambda>rr. if rr = r then [0] else []) [0..<P])"
proof -
  have ne: "rev (load s) \<noteq> []" using len P by auto
  from argmin_Some[OF ne] obtain j where j: "j < P" "argmin (rev (load s)) = Some j"
    "\<forall>i<P. rev (load s) ! j \<le> rev (load s) ! i" "\<forall>i<j. rev (load s) ! j < rev (load s) ! i"
    using len by auto
  define r where "r = P - 1 - j"
  have rP: "r < P" using j(1) by (simp add: r_def)
  have ri: "int P - 1 - int j = int r" using j(1) by (simp add: r_def)
  have rv: "rev (load s) ! i = load s ! (P - Suc i)" if "i < P" for i
    using that len by (simp add: rev_nth)
  have m1: "\<forall>i<P. load s ! r \<le> load s ! i"
  proof (intro allI impI)
    fix i assume i: "i < P"
    then have "P - Suc i < P" by simp
    from j(3)[rule_format, OF this] show "load s ! r \<le> load s ! i"
      using i j(1) by (simp add: rv r_def)
  qed
  have m2: "\<forall>i<P. r < i \<longrightarrow> load s ! r < load s ! i"
  proof (intro allI impI)
    fix i assume i: "i < P" "r < i"
    then have lt: "P - Suc i < j" using j(1) by (simp add: r_def)
    from j(4)[rule_format, OF lt] show "load s ! r < load s ! i"
      using i j(1) by (simp add: rv r_def)
  qed
  have ni: "norm_index (length (load s)) (int r) = Some r"
    using rP len by (simp add: norm_index_def)
  have "assign P None s = Inr (s\<lparr>load := (load s)[r := wrap64 (load s ! r + 1)]\<rparr>,
           map (\<lambda>rr. if rr = r then [0] else []) [0..<P])"
    by (simp add: assign_def j(2) Let_def ri ni)
  then show ?thesis using rP m1 m2 by blast
qed

subsection \<open>Claims about one call of \<open>assign\<close>\<close>

text \<open>
  Claim C1, amended. For a manager over \<open>P \<ge> 1\<close> ranks (its \<open>load\<close> has \<open>P\<close>
  entries) and any list of \<open>N\<close> ids: whenever \<open>assign\<close> returns, it returns a list of
  \<open>P\<close> index lists, each sorted and without repetition, whose union is
  \<open>{0,\<dots>,N-1}\<close> and in which every index below \<open>N\<close> belongs to exactly one list;
  and it returns whenever no int64 operation of the call overflows.
\<close>

theorem assign_is_partition:
  assumes "length (load s) = P" and "0 < P"
  shows "(\<forall>s' out. assign P (Some ids) s = Inr (s', out) \<longrightarrow>
            length out = P \<and>
            (\<Union>r\<in>{0..<P}. set (out ! r)) = {0..<length ids} \<and>
            (\<forall>i<length ids. \<exists>!r. r < P \<and> i \<in> set (out ! r)) \<and>
            (\<forall>r<P. distinct (out ! r) \<and> sorted (out ! r))) \<and>
         (no_overflow P (load s) (int (length ids)) \<longrightarrow>
            (\<exists>s' out. assign P (Some ids) s = Inr (s', out)))"
proof -
  have "length out = P \<and>
            (\<Union>r\<in>{0..<P}. set (out ! r)) = {0..<length ids} \<and>
            (\<forall>i<length ids. \<exists>!r. r < P \<and> i \<in> set (out ! r)) \<and>
            (\<forall>r<P. distinct (out ! r) \<and> sorted (out ! r))"
    if res: "assign P (Some ids) s = Inr (s', out)" for s' out
  proof -
    note p = assign_bulk_partition[OF res assms(1)]
    show ?thesis
      by (intro conjI) (rule p(1), rule p(2), rule p(3), rule p(4))
  qed
  then have one: "\<forall>s' out. assign P (Some ids) s = Inr (s', out) \<longrightarrow>
            length out = P \<and>
            (\<Union>r\<in>{0..<P}. set (out ! r)) = {0..<length ids} \<and>
            (\<forall>i<length ids. \<exists>!r. r < P \<and> i \<in> set (out ! r)) \<and>
            (\<forall>r<P. distinct (out ! r) \<and> sorted (out ! r))"
    by (intro allI impI)
  have two: "no_overflow P (load s) (int (length ids)) \<longrightarrow>
            (\<exists>s' out. assign P (Some ids) s = Inr (s', out))"
    using assign_bulk_succeeds[OF assms] by (intro impI)
  from one two show ?thesis by (rule conjI)
qed

theorem assign_is_partition_witness:
  "length (load \<lparr>load = [0, 0, 0], rank_of = (Map.empty :: char \<rightharpoonup> nat)\<rparr>) = 3 \<and> 0 < (3::nat) \<and>
   no_overflow 3 (load \<lparr>load = [0, 0, 0], rank_of = (Map.empty :: char \<rightharpoonup> nat)\<rparr>)
     (int (length ''abcdefg'')) \<and>
   (\<exists>s' out. assign 3 (Some ''abcdefg'') \<lparr>load = [0, 0, 0], rank_of = Map.empty\<rparr> = Inr (s', out) \<and>
      length out = 3 \<and>
      (\<Union>r\<in>{0..<3}. set (out ! r)) = {0..<length ''abcdefg''} \<and>
      (\<forall>i<length ''abcdefg''. \<exists>!r. r < 3 \<and> i \<in> set (out ! r)) \<and>
      (\<forall>r<3. distinct (out ! r) \<and> sorted (out ! r)))"
proof -
  have h1: "length (load \<lparr>load = [0, 0, 0], rank_of = (Map.empty :: char \<rightharpoonup> nat)\<rparr>) = 3"
    by simp
  have h2: "0 < (3::nat)" by simp
  have h3: "no_overflow 3 (load \<lparr>load = [0, 0, 0], rank_of = (Map.empty :: char \<rightharpoonup> nat)\<rparr>)
     (int (length ''abcdefg''))"
    by code_simp
  from assign_is_partition[OF h1 h2, of "''abcdefg''"] h3
  obtain s' out where
    res: "assign 3 (Some ''abcdefg'') \<lparr>load = [0, 0, 0], rank_of = Map.empty\<rparr> = Inr (s', out)"
    by auto
  from assign_is_partition[OF h1 h2, of "''abcdefg''"] res
  have "length out = 3 \<and>
      (\<Union>r\<in>{0..<3}. set (out ! r)) = {0..<length ''abcdefg''} \<and>
      (\<forall>i<length ''abcdefg''. \<exists>!r. r < 3 \<and> i \<in> set (out ! r)) \<and>
      (\<forall>r<3. distinct (out ! r) \<and> sorted (out ! r))"
    by simp
  with res h1 h2 h3 show ?thesis by blast
qed

text \<open>
  Counterexample to claim C1 as stated: one rank whose load is the largest int64
  value, one id. \<open>sum + Nid\<close> wraps to \<open>-2^63\<close>, no rank is eligible, \<open>part\<close> is zero
  and the rank lookup of line 115 raises IndexError: nothing is returned.
\<close>

theorem assign_raises_counterexample:
  "isl (assign 1 (Some ''a'') \<lparr>load = [2 ^ 63 - 1], rank_of = Map.empty\<rparr>) \<and>
   projl (assign 1 (Some ''a'') \<lparr>load = [2 ^ 63 - 1], rank_of = Map.empty\<rparr>) = IndexError"
  by code_simp

text \<open>
  Claim C8, amended. Whenever \<open>assign\<close> returns for \<open>N\<close> ids, the index lists it
  returns, concatenated in rank order, are the list \<open>0, 1, \<dots>, N-1\<close>, and every
  rank's list is an interval \<open>[a..<b]\<close>: one contiguous block, in the order of the
  input; and it returns whenever no int64 operation of the call overflows.
\<close>

theorem assign_order_preserving:
  assumes "length (load s) = P" and "0 < P"
  shows "(\<forall>s' out. assign P (Some ids) s = Inr (s', out) \<longrightarrow>
            length out = P \<and> concat out = [0..<length ids] \<and>
            (\<forall>r<P. \<exists>a b. out ! r = [a..<b])) \<and>
         (no_overflow P (load s) (int (length ids)) \<longrightarrow>
            (\<exists>s' out. assign P (Some ids) s = Inr (s', out)))"
proof -
  have "length out = P \<and> concat out = [0..<length ids] \<and> (\<forall>r<P. \<exists>a b. out ! r = [a..<b])"
    if res: "assign P (Some ids) s = Inr (s', out)" for s' out
  proof -
    have cc: "concat out = [0..<length ids]" and len: "length out = P"
      using assign_bulk_concat[OF res assms(1)] by simp_all
    have "\<forall>r<P. \<exists>a b. out ! r = [a..<b]"
      using block_of_upt[OF cc] len by (metis nth_mem)
    then show ?thesis using cc len by blast
  qed
  then show ?thesis using assign_bulk_succeeds[OF assms] by blast
qed

theorem assign_order_preserving_witness:
  "length (load \<lparr>load = [7, 0, 3, 9], rank_of = (Map.empty :: char \<rightharpoonup> nat)\<rparr>) = 4 \<and> 0 < (4::nat) \<and>
   no_overflow 4 (load \<lparr>load = [7, 0, 3, 9], rank_of = (Map.empty :: char \<rightharpoonup> nat)\<rparr>)
     (int (length ''abcde'')) \<and>
   (\<exists>s' out. assign 4 (Some ''abcde'') \<lparr>load = [7, 0, 3, 9], rank_of = Map.empty\<rparr> = Inr (s', out) \<and>
      length out = 4 \<and> concat out = [0..<length ''abcde''] \<and>
      (\<forall>r<4. \<exists>a b. out ! r = [a..<b]))"
proof -
  have h1: "length (load \<lparr>load = [7, 0, 3, 9], rank_of = (Map.empty :: char \<rightharpoonup> nat)\<rparr>) = 4"
    by simp
  have h2: "0 < (4::nat)" by simp
  have h3: "no_overflow 4 (load \<lparr>load = [7, 0, 3, 9], rank_of = (Map.empty :: char \<rightharpoonup> nat)\<rparr>)
     (int (length ''abcde''))"
    by code_simp
  from assign_order_preserving[OF h1 h2, of "''abcde''"] h1 h2 h3 show ?thesis by blast
qed

text \<open>
  Counterexample to claim C8 as stated: two ranks with loads \<open>2^63-1\<close> and 0, one
  id. \<open>sum + Nid\<close> wraps to \<open>-2^63\<close>, no rank is eligible and line 115 raises
  IndexError: there are no lists to concatenate.
\<close>

theorem assign_no_blocks_counterexample:
  "isl (assign 2 (Some ''a'') \<lparr>load = [2 ^ 63 - 1, 0], rank_of = Map.empty\<rparr>) \<and>
   projl (assign 2 (Some ''a'') \<lparr>load = [2 ^ 63 - 1, 0], rank_of = Map.empty\<rparr>) = IndexError"
  by code_simp

text \<open>
  Claim C7, amended. With at least one id and no int64 operation of the call
  overflowing, the number \<open>nsize\<close> of eligible ranks is positive (no division by
  zero), every item index has a first rank whose cumulative boundary exceeds it, and
  \<open>assign\<close> returns without raising.
\<close>

theorem assign_never_infeasible:
  assumes "length (load s) = P" and "0 < P" and "ids \<noteq> []"
    and "no_overflow P (load s) (int (length ids))"
  shows "0 < length (filter id (eligible P (load s) (int (length ids)))) \<and>
         (\<forall>i<length ids.
            first_rank P (cumsum (bulk_part P (load s) (int (length ids)))) i \<noteq> None) \<and>
         (\<exists>s' out. assign P (Some ids) s = Inr (s', out))"
proof -
  have N: "1 \<le> int (length ids)" using assms(3) by (cases ids) simp_all
  have "0 < length (filter id (eligible_exact P (load s) (int (length ids))))"
    using select_eligible_exact_nonempty[OF assms(1,2) N]
    by (simp add: length_select_eligible_exact)
  then have "0 < length (filter id (eligible P (load s) (int (length ids))))"
    by (simp add: bulk_part_no_overflow(2)[OF assms(4)])
  moreover have "\<forall>i<length ids.
      first_rank P (cumsum (bulk_part P (load s) (int (length ids)))) i \<noteq> None"
    unfolding bulk_part_no_overflow(3)[OF assms(4)]
    using first_rank_total[OF assms(1,2), of _ ids] by blast
  ultimately show ?thesis using assign_bulk_succeeds[OF assms(1,2,4)] by blast
qed

theorem assign_never_infeasible_witness:
  "length (load \<lparr>load = [0, 5, 100], rank_of = (Map.empty :: char \<rightharpoonup> nat)\<rparr>) = 3 \<and> 0 < (3::nat) \<and>
   ''a'' \<noteq> [] \<and>
   no_overflow 3 (load \<lparr>load = [0, 5, 100], rank_of = (Map.empty :: char \<rightharpoonup> nat)\<rparr>)
     (int (length ''a'')) \<and>
   0 < length (filter id (eligible 3 (load \<lparr>load = [0, 5, 100], rank_of = (Map.empty :: char \<rightharpoonup> nat)\<rparr>)
     (int (length ''a'')))) \<and>
   first_rank 3 (cumsum (bulk_part 3 (load \<lparr>load = [0, 5, 100], rank_of = (Map.empty :: char \<rightharpoonup> nat)\<rparr>)
      (int (length ''a'')))) 0 \<noteq> None \<and>
   (\<exists>s' out. assign 3 (Some ''a'') \<lparr>load = [0, 5, 100], rank_of = Map.empty\<rparr> = Inr (s', out))"
proof -
  have h1: "length (load \<lparr>load = [0, 5, 100], rank_of = (Map.empty :: char \<rightharpoonup> nat)\<rparr>) = 3"
    by simp
  have h2: "0 < (3::nat)" by simp
  have h3: "''a'' \<noteq> []" by simp
  have h4: "no_overflow 3 (load \<lparr>load = [0, 5, 100], rank_of = (Map.empty :: char \<rightharpoonup> nat)\<rparr>)
     (int (length ''a''))"
    by code_simp
  from assign_never_infeasible[OF h1 h2 h3 h4] h1 h2 h3 h4 show ?thesis by auto
qed

text \<open>
  Counterexample to claim C7 as stated: one rank whose load is the largest int64
  value, two ids. The wrapped total is below the load, the set of eligible ranks is
  empty and the rank lookup of the first item finds no rank.
\<close>

theorem no_eligible_rank_counterexample:
  "filter id (eligible 1 [2 ^ 63 - 1] (int (length ''ab''))) = [] \<and>
   first_rank 1 (cumsum (bulk_part 1 [2 ^ 63 - 1] (int (length ''ab'')))) 0 = None \<and>
   isl (assign 1 (Some ''ab'') \<lparr>load = [2 ^ 63 - 1], rank_of = Map.empty\<rparr>) \<and>
   projl (assign 1 (Some ''ab'') \<lparr>load = [2 ^ 63 - 1], rank_of = Map.empty\<rparr>) = IndexError"
  by code_simp

text \<open>
  Claim C5, amended. The anonymous request picks the rank \<open>r\<close> that holds the
  minimum load and has every higher-indexed rank strictly above it (the last
  minimum), returns \<open>[0]\<close> at \<open>r\<close> and the empty list elsewhere, and leaves
  \<open>rank_of\<close> as it was. The load of \<open>r\<close> is incremented in int64 arithmetic: by
  exactly one unless it is the largest int64 value. With four ranks and loads
  \<open>[2,1,1,3]\<close> the loads become \<open>[2,1,2,3]\<close>.
\<close>

theorem assign_anonymous_tie_break:
  assumes "length (load s) = P" and "0 < P"
  shows "(\<exists>r<P. (\<forall>j<P. load s ! r \<le> load s ! j) \<and>
            (\<forall>j<P. r < j \<longrightarrow> load s ! r < load s ! j) \<and>
            (\<exists>s'. assign P None s =
                    Inr (s', map (\<lambda>rr. if rr = r then [0] else []) [0..<P]) \<and>
                  load s' = (load s)[r := wrap64 (load s ! r + 1)] \<and>
                  (int64 (load s ! r + 1) \<longrightarrow> load s' = (load s)[r := load s ! r + 1]) \<and>
                  rank_of s' = rank_of s)) \<and>
         (\<forall>rk. assign 4 None \<lparr>load = [2, 1, 1, 3], rank_of = rk\<rparr> =
                 Inr (\<lparr>load = [2, 1, 2, 3], rank_of = rk\<rparr>, [[], [], [0], []]))"
proof -
  from assign_anonymous[OF assms] obtain r where r: "r < P"
    "\<forall>j<P. load s ! r \<le> load s ! j" "\<forall>j<P. r < j \<longrightarrow> load s ! r < load s ! j"
    "assign P None s = Inr (s\<lparr>load := (load s)[r := wrap64 (load s ! r + 1)]\<rparr>,
                            map (\<lambda>rr. if rr = r then [0] else []) [0..<P])"
    by blast
  have "\<exists>s'. assign P None s = Inr (s', map (\<lambda>rr. if rr = r then [0] else []) [0..<P]) \<and>
          load s' = (load s)[r := wrap64 (load s ! r + 1)] \<and>
          (int64 (load s ! r + 1) \<longrightarrow> load s' = (load s)[r := load s ! r + 1]) \<and>
          rank_of s' = rank_of s"
    using r(4) by (simp add: wrap64_id)
  then have gen: "\<exists>r<P. (\<forall>j<P. load s ! r \<le> load s ! j) \<and>
            (\<forall>j<P. r < j \<longrightarrow> load s ! r < load s ! j) \<and>
            (\<exists>s'. assign P None s =
                    Inr (s', map (\<lambda>rr. if rr = r then [0] else []) [0..<P]) \<and>
                  load s' = (load s)[r := wrap64 (load s ! r + 1)] \<and>
                  (int64 (load s ! r + 1) \<longrightarrow> load s' = (load s)[r := load s ! r + 1]) \<and>
                  rank_of s' = rank_of s)"
    using r(1,2,3) by blast
  have ex: "\<forall>rk. assign 4 None \<lparr>load = [2, 1, 1, 3], rank_of = rk\<rparr> =
                 Inr (\<lparr>load = [2, 1, 2, 3], rank_of = rk\<rparr>, [[], [], [0], []])"
    by (simp add: assign_def norm_index_def upt_rec wrap64_def)
  from gen ex show ?thesis by blast
qed

theorem assign_anonymous_tie_break_witness:
  "length (load \<lparr>load = [2, 1, 1, 3], rank_of = (Map.empty :: string \<rightharpoonup> nat)\<rparr>) = 4 \<and> 0 < (4::nat) \<and>
   assign 4 None \<lparr>load = [2, 1, 1, 3], rank_of = (Map.empty :: string \<rightharpoonup> nat)\<rparr> =
     Inr (\<lparr>load = [2, 1, 2, 3], rank_of = Map.empty\<rparr>, [[], [], [0], []])"
proof -
  have h1: "length (load \<lparr>load = [2, 1, 1, 3], rank_of = (Map.empty :: string \<rightharpoonup> nat)\<rparr>) = 4"
    by simp
  have h2: "0 < (4::nat)" by simp
  from assign_anonymous_tie_break[OF h1 h2]
  have "assign 4 None \<lparr>load = [2, 1, 1, 3], rank_of = (Map.empty :: string \<rightharpoonup> nat)\<rparr> =
          Inr (\<lparr>load = [2, 1, 2, 3], rank_of = Map.empty\<rparr>, [[], [], [0], []])"
    by blast
  then show ?thesis by simp
qed

text \<open>
  Counterexample to claim C5 as stated: two ranks, both at the largest int64 value.
  The anonymous request picks rank 1 and its load wraps to \<open>-2^63\<close>: it is not
  incremented by one.
\<close>

theorem anonymous_wraps_counterexample:
  "\<not> isl (assign 2 (None :: char list option)
            \<lparr>load = [2 ^ 63 - 1, 2 ^ 63 - 1], rank_of = Map.empty\<rparr>) \<and>
   load (fst (projr (assign 2 (None :: char list option)
            \<lparr>load = [2 ^ 63 - 1, 2 ^ 63 - 1], rank_of = Map.empty\<rparr>))) =
     [2 ^ 63 - 1, - (2 ^ 63)] \<and>
   snd (projr (assign 2 (None :: char list option)
            \<lparr>load = [2 ^ 63 - 1, 2 ^ 63 - 1], rank_of = Map.empty\<rparr>)) = [[], [0]]"
  by code_simp

text \<open>
  Claim C6, amended. When all \<open>P\<close> ranks start at the same load \<open>L\<close> and no int64
  operation of the call overflows, one call of \<open>assign\<close> with \<open>N\<close> ids gives every
  rank \<open>N div P\<close> items, or one more when \<open>P\<close> does not divide \<open>N\<close>; the numbers of
  items of two ranks differ by at most one and sum to \<open>N\<close>.
\<close>

theorem assign_fair_from_equal_load:
  assumes "load s = replicate P L" and "0 < P"
    and "no_overflow P (load s) (int (length ids))"
  shows "\<exists>s' out. assign P (Some ids) s = Inr (s', out) \<and>
           (\<forall>r<P. length (out ! r) = length ids div P \<or>
                   (length (out ! r) = length ids div P + 1 \<and> 0 < length ids mod P)) \<and>
           (\<forall>r<P. \<forall>r'<P. length (out ! r) \<le> length (out ! r') + 1) \<and>
           sum_list (map length out) = length ids"
proof -
  let ?N = "length ids"
  let ?part = "bulk_part_exact P (load s) (int ?N)"
  have len: "length (load s) = P" using assms(1) by simp
  from assign_bulk_succeeds[OF len assms(2,3)] obtain s' out
    where res: "assign P (Some ids) s = Inr (s', out)" by blast
  have part: "?part ! r = int (?N div P) \<or> (?part ! r = int (?N div P) + 1 \<and> 0 < ?N mod P)"
    if "r < P" for r
    using bulk_part_exact_equal_load[OF assms(2) that, of L ?N] by (simp add: assms(1))
  have nonneg: "\<forall>x\<in>set ?part. 0 \<le> x"
  proof
    fix x assume "x \<in> set ?part"
    then obtain r where "r < P" "x = ?part ! r"
      by (auto simp: in_set_conv_nth length_bulk_part_exact len)
    then show "0 \<le> x" using part[of r] by auto
  qed
  have lens: "int (length (out ! r)) = ?part ! r" if "r < P" for r
    by (rule assign_bulk_lengths[OF res len assms(2,3) nonneg that])
  have c1: "\<forall>r<P. length (out ! r) = ?N div P \<or>
                   (length (out ! r) = ?N div P + 1 \<and> 0 < ?N mod P)"
  proof (intro allI impI)
    fix r assume r: "r < P"
    from part[OF r] lens[OF r]
    show "length (out ! r) = ?N div P \<or> (length (out ! r) = ?N div P + 1 \<and> 0 < ?N mod P)"
      by linarith
  qed
  have c2: "\<forall>r<P. \<forall>r'<P. length (out ! r) \<le> length (out ! r') + 1"
  proof (intro allI impI)
    fix r r' assume "r < P" "r' < P"
    then show "length (out ! r) \<le> length (out ! r') + 1"
      using c1 by (metis le_add1 order_refl trans_le_add1)
  qed
  have "sum_list (map length out) = length (concat out)" by (simp add: length_concat)
  then have c3: "sum_list (map length out) = ?N"
    by (simp add: assign_bulk_concat(1)[OF res len])
  from res c1 c2 c3 show ?thesis by blast
qed

theorem assign_fair_from_equal_load_witness:
  "load \<lparr>load = [0, 0, 0], rank_of = (Map.empty :: char \<rightharpoonup> nat)\<rparr> = replicate 3 0 \<and> 0 < (3::nat) \<and>
   no_overflow 3 (load \<lparr>load = [0, 0, 0], rank_of = (Map.empty :: char \<rightharpoonup> nat)\<rparr>)
     (int (length ''abcdefg'')) \<and>
   (\<exists>s' out. assign 3 (Some ''abcdefg'') \<lparr>load = [0, 0, 0], rank_of = Map.empty\<rparr> = Inr (s', out) \<and>
      (\<forall>r<3. length (out ! r) = 2 \<or> length (out ! r) = 3) \<and>
      sum_list (map length out) = 7)"
proof -
  have h1: "load \<lparr>load = [0, 0, 0], rank_of = (Map.empty :: char \<rightharpoonup> nat)\<rparr> = replicate 3 0"
    by (simp add: numeral_3_eq_3)
  have h2: "0 < (3::nat)" by simp
  have h3: "no_overflow 3 (load \<lparr>load = [0, 0, 0], rank_of = (Map.empty :: char \<rightharpoonup> nat)\<rparr>)
     (int (length ''abcdefg''))"
    by code_simp
  from assign_fair_from_equal_load[OF h1 h2 h3]
  obtain s' out where
    "assign 3 (Some ''abcdefg'') \<lparr>load = [0, 0, 0], rank_of = Map.empty\<rparr> = Inr (s', out)"
    "\<forall>r<3. length (out ! r) = length ''abcdefg'' div 3 \<or>
            (length (out ! r) = length ''abcdefg'' div 3 + 1 \<and> 0 < length ''abcdefg'' mod 3)"
    "sum_list (map length out) = length ''abcdefg''"
    by blast
  then have "assign 3 (Some ''abcdefg'') \<lparr>load = [0, 0, 0], rank_of = Map.empty\<rparr> = Inr (s', out) \<and>
      (\<forall>r<3. length (out ! r) = 2 \<or> length (out ! r) = 3) \<and>
      sum_list (map length out) = 7"
    by auto
  then show ?thesis using h1 h2 h3 by blast
qed

text \<open>
  Counterexample to claim C6 as stated: two ranks at the equal load \<open>2^62-1\<close>, two
  ids. \<open>sum + Nid\<close> is \<open>2^63\<close> and wraps to \<open>-2^63\<close>, no rank is eligible and line
  115 raises IndexError: no rank receives an item.
\<close>

theorem equal_load_raises_counterexample:
  "load \<lparr>load = [2 ^ 62 - 1, 2 ^ 62 - 1], rank_of = (Map.empty :: char \<rightharpoonup> nat)\<rparr> =
     replicate 2 (2 ^ 62 - 1) \<and>
   isl (assign 2 (Some ''ab'') \<lparr>load = [2 ^ 62 - 1, 2 ^ 62 - 1], rank_of = Map.empty\<rparr>) \<and>
   projl (assign 2 (Some ''ab'') \<lparr>load = [2 ^ 62 - 1, 2 ^ 62 - 1], rank_of = Map.empty\<rparr>) =
     IndexError"
  by code_simp


section \<open>Properties of the engine life cycle\<close>

subsection \<open>One pass of the loop body\<close>

lemma iterate_body_completed:
  assumes "engine_iterate h (engine_state s) = (Inr err, d)"
    and "errorlist s = Some el" and "curiter s = Some c"
  shows "\<exists>s'. iterate_body h s = (s', None) \<and>
           errorlist s' = Some (el @ [err]) \<and> curiter s' = Some (c + 1) \<and>
           finished s' = (finished s \<or> c + 1 = numiter s) \<and> numiter s' = numiter s \<and>
           p_numiter_contiguous s' = p_numiter_contiguous s \<and>
           (\<exists>m. itermeta s' = itermeta s @ [m] \<and> iteration m = c + 1 \<and> error m = err)"
  using assms by (simp add: iterate_body_def Let_def)

lemma iterate_body_cases:
  obtains (raised) e d where "engine_iterate h (engine_state s) = (Inl e, d)"
      "iterate_body h s = (s\<lparr>engine_state := d\<rparr>, Some e)"
  | (no_errorlist) err d where "engine_iterate h (engine_state s) = (Inr err, d)"
      "errorlist s = None" "iterate_body h s = (s\<lparr>engine_state := d\<rparr>, Some AttributeError)"
  | (no_curiter) err d el where "engine_iterate h (engine_state s) = (Inr err, d)"
      "errorlist s = Some el" "curiter s = None"
      "iterate_body h s = (s\<lparr>engine_state := d, errorlist := Some (el @ [err])\<rparr>, Some AttributeError)"
  | (completed) err d el c s' where "engine_iterate h (engine_state s) = (Inr err, d)"
      "errorlist s = Some el" "curiter s = Some c"
      "iterate_body h s = (s', None)"
      "errorlist s' = Some (el @ [err])" "curiter s' = Some (c + 1)"
      "finished s' = (finished s \<or> c + 1 = numiter s)" "numiter s' = numiter s"
      "p_numiter_contiguous s' = p_numiter_contiguous s"
      "\<exists>m. itermeta s' = itermeta s @ [m] \<and> iteration m = c + 1 \<and> error m = err"
proof (cases "engine_iterate h (engine_state s)")
  case (Pair r d)
  show ?thesis
  proof (cases r)
    case (Inl e)
    then show ?thesis using Pair raised by (simp add: iterate_body_def Let_def)
  next
    case (Inr err)
    show ?thesis
    proof (cases "errorlist s")
      case None
      then show ?thesis using Pair Inr no_errorlist by (simp add: iterate_body_def Let_def)
    next
      case (Some el)
      show ?thesis
      proof (cases "curiter s")
        case None
        then show ?thesis using Pair Inr Some no_curiter by (simp add: iterate_body_def Let_def)
      next
        case c: (Some c)
        have hk: "engine_iterate h (engine_state s) = (Inr err, d)" using Pair Inr by simp
        from iterate_body_completed[OF hk Some c] obtain s' where
          "iterate_body h s = (s', None)"
          "errorlist s' = Some (el @ [err])" "curiter s' = Some (c + 1)"
          "finished s' = (finished s \<or> c + 1 = numiter s)" "numiter s' = numiter s"
          "p_numiter_contiguous s' = p_numiter_contiguous s"
          "\<exists>m. itermeta s' = itermeta s @ [m] \<and> iteration m = c + 1 \<and> error m = err"
          by blast
        then show ?thesis using completed[OF hk Some c] by blast
      qed
    qed
  qed
qed

subsection \<open>The counters agree\<close>

lemma counters_agree_iterate_body:
  assumes "counters_agree s"
  shows "counters_agree (fst (iterate_body h s))"
proof (cases rule: iterate_body_cases[of h s])
  case (raised e d)
  then show ?thesis using assms by (auto simp: counters_agree_def split: option.splits)
next
  case (no_errorlist err d)
  then show ?thesis using assms by (auto simp: counters_agree_def split: option.splits)
next
  case (no_curiter err d el)
  then show ?thesis using assms by (auto simp: counters_agree_def split: option.splits)
next
  case (completed err d el c s')
  then show ?thesis using assms by (auto simp: counters_agree_def split: option.splits)
qed

lemma counters_agree_iterate_loop:
  "counters_agree s \<Longrightarrow> counters_agree (fst (iterate_loop h n s))"
proof (induction n arbitrary: s)
  case 0
  then show ?case by simp
next
  case (Suc n)
  show ?case
  proof (cases "finished s")
    case True
    then show ?thesis using Suc.prems by simp
  next
    case False
    obtain s' r where b: "iterate_body h s = (s', r)" by (cases "iterate_body h s")
    have s': "counters_agree s'"
      using counters_agree_iterate_body[OF Suc.prems, of h] b by simp
    show ?thesis
    proof (cases r)
      case None
      then show ?thesis using False b Suc.IH[OF s'] by simp
    next
      case (Some e)
      then show ?thesis using False b s' by simp
    qed
  qed
qed

lemma counters_agree_iterate:
  "counters_agree s \<Longrightarrow> counters_agree (fst (iterate h num s))"
  by (simp add: iterate_def Let_def counters_agree_iterate_loop)

lemma counters_agree_prepare:
  "counters_agree s \<Longrightarrow> counters_agree (fst (prepare h s))"
  by (auto simp: prepare_def Let_def counters_agree_def split: option.splits prod.splits)

lemma counters_agree_finalize:
  "counters_agree s \<Longrightarrow> counters_agree (fst (finalize h s))"
  by (auto simp: finalize_def Let_def counters_agree_def split: option.splits prod.splits)

lemma counters_agree_initialize:
  "itermeta s = [] \<Longrightarrow> counters_agree (fst (initialize h s))"
  by (auto simp: initialize_def Let_def counters_agree_def split: prod.splits)

lemma counters_agree_run:
  assumes "counters_agree s" and "Initialize \<notin> set ops"
  shows "counters_agree (fst (run h ops s))"
  using assms
proof (induction ops arbitrary: s)
  case Nil
  then show ?case by simp
next
  case (Cons x ops)
  obtain s' r where st: "lifecycle_step h x s = (s', r)" by (cases "lifecycle_step h x s")
  have "counters_agree (fst (lifecycle_step h x s))"
    using Cons.prems
    by (cases x) (simp_all add: counters_agree_prepare counters_agree_iterate counters_agree_finalize)
  then have s': "counters_agree s'" using st by simp
  show ?case
  proof (cases r)
    case None
    then show ?thesis using st Cons.IH[OF s'] Cons.prems(2) by simp
  next
    case (Some e)
    then show ?thesis using st s' by simp
  qed
qed

lemma iterate_body_None:
  assumes "iterate_body h s = (s', None)"
  shows "\<exists>c el err m. curiter s = Some c \<and> errorlist s = Some el \<and>
           curiter s' = Some (c + 1) \<and> errorlist s' = Some (el @ [err]) \<and>
           itermeta s' = itermeta s @ [m] \<and> iteration m = c + 1 \<and> error m = err"
proof (cases rule: iterate_body_cases[of h s])
  case (raised e d)
  then show ?thesis using assms by simp
next
  case (no_errorlist err d)
  then show ?thesis using assms by simp
next
  case (no_curiter err d el)
  then show ?thesis using assms by simp
next
  case (completed err d el c s'')
  then have "s'' = s'" using assms by simp
  then show ?thesis using completed by auto
qed

subsection \<open>The finished flag and the budget\<close>

lemma within_budget_iterate_body:
  assumes "within_budget s" and "\<not> finished s"
  shows "within_budget (fst (iterate_body h s))"
proof (cases rule: iterate_body_cases[of h s])
  case (raised e d)
  then show ?thesis using assms by (auto simp: within_budget_def split: option.splits)
next
  case (no_errorlist err d)
  then show ?thesis using assms by (auto simp: within_budget_def split: option.splits)
next
  case (no_curiter err d el)
  then show ?thesis using assms by (auto simp: within_budget_def split: option.splits)
next
  case (completed err d el c s')
  then show ?thesis using assms by (auto simp: within_budget_def split: option.splits)
qed

lemma within_budget_iterate_loop:
  "within_budget s \<Longrightarrow> within_budget (fst (iterate_loop h n s))"
proof (induction n arbitrary: s)
  case 0
  then show ?case by simp
next
  case (Suc n)
  show ?case
  proof (cases "finished s")
    case True
    then show ?thesis using Suc.prems by simp
  next
    case False
    obtain s' r where b: "iterate_body h s = (s', r)" by (cases "iterate_body h s")
    have s': "within_budget s'"
      using within_budget_iterate_body[OF Suc.prems False, of h] b by simp
    show ?thesis
    proof (cases r)
      case None
      then show ?thesis using False b Suc.IH[OF s'] by simp
    next
      case (Some e)
      then show ?thesis using False b s' by simp
    qed
  qed
qed

lemma within_budget_iterate:
  "within_budget s \<Longrightarrow> within_budget (fst (iterate h num s))"
  by (simp add: iterate_def Let_def within_budget_iterate_loop)

lemma within_budget_finalize:
  "within_budget s \<Longrightarrow> within_budget (fst (finalize h s))"
  by (auto simp: finalize_def Let_def within_budget_def split: option.splits prod.splits)

lemma within_budget_prepare:
  "within_budget s \<Longrightarrow> \<not> finished s \<Longrightarrow> within_budget (fst (prepare h s))"
  by (auto simp: prepare_def Let_def within_budget_def split: option.splits prod.splits)

lemma prepare_clears_finished: "\<not> finished (fst (prepare h s))"
  by (auto simp: prepare_def Let_def split: option.splits prod.splits)

lemma iterate_loop_finished: "finished s \<Longrightarrow> iterate_loop h n s = (s, None)"
  by (cases n) simp_all

lemma iterate_finished: "finished s \<Longrightarrow> iterate h num s = (s, None)"
  by (simp add: iterate_def Let_def iterate_loop_finished)

lemma finished_kept:
  assumes "finished s" and "x \<noteq> Prepare"
  shows "finished (fst (lifecycle_step h x s))"
proof (cases x)
  case Initialize
  then show ?thesis using assms(1) by (auto simp: initialize_def Let_def split: prod.splits)
next
  case Prepare
  then show ?thesis using assms(2) by simp
next
  case (Iterate num)
  then show ?thesis using assms(1) by (simp add: iterate_finished)
next
  case Finalize
  then show ?thesis using assms(1) by (auto simp: finalize_def Let_def split: prod.splits)
qed

lemma within_budget_initialize:
  assumes "1 \<le> numiter s" and "\<not> finished s"
  shows "within_budget (fst (initialize h s))" and "\<not> finished (fst (initialize h s))"
  using assms by (auto simp: initialize_def Let_def within_budget_def split: prod.splits)

subsection \<open>Claims about the life cycle\<close>

text \<open>
  Claim C10, amended. After the \<open>initialize()\<close> of a newly constructed engine, and
  after any further calls of \<open>prepare\<close>, \<open>iterate\<close> (any \<open>num\<close>) and \<open>finalize\<close>,
  also when a hook raises, \<open>curiter == len(errorlist) == len(itermeta)\<close>. Every call
  of \<open>iterate\<close> preserves the equality, and a completed pass of the loop body
  increments the counter by one and appends one error value and one iteration record.
  \<open>initialize\<close> resets the counter and the error history but not \<open>itermeta\<close>, so
  the equality does not hold after an \<open>initialize()\<close> that follows iterations (the
  counterexample below).
\<close>
theorem counters_agree_after_first_initialize:
  assumes "Initialize \<notin> set ops"
  shows "counters_agree
           (fst (run h ops (fst (initialize h (BaseEngine_init d infos calls pn pc ps))))) \<and>
         (counters_agree s \<longrightarrow> counters_agree (fst (iterate h num s))) \<and>
         (iterate_body h s = (s', None) \<longrightarrow>
            (\<exists>c el err m. curiter s = Some c \<and> errorlist s = Some el \<and>
               curiter s' = Some (c + 1) \<and> errorlist s' = Some (el @ [err]) \<and>
               itermeta s' = itermeta s @ [m]))"
proof -
  have "itermeta (BaseEngine_init d infos calls pn pc ps) = []"
    by (simp add: BaseEngine_init_def)
  then have "counters_agree (fst (initialize h (BaseEngine_init d infos calls pn pc ps)))"
    by (rule counters_agree_initialize)
  then have "counters_agree
           (fst (run h ops (fst (initialize h (BaseEngine_init d infos calls pn pc ps)))))"
    using assms by (rule counters_agree_run)
  moreover have "counters_agree s \<longrightarrow> counters_agree (fst (iterate h num s))"
    by (simp add: counters_agree_iterate)
  moreover have "iterate_body h s = (s', None) \<longrightarrow>
            (\<exists>c el err m. curiter s = Some c \<and> errorlist s = Some el \<and>
               curiter s' = Some (c + 1) \<and> errorlist s' = Some (el @ [err]) \<and>
               itermeta s' = itermeta s @ [m])"
    using iterate_body_None[of h s s'] by blast
  ultimately show ?thesis by blast
qed

theorem counters_agree_after_first_initialize_witness:
  "Initialize \<notin> set [Prepare, Iterate None, Iterate (Some 3), Finalize, Iterate (Some 20)] \<and>
   counters_agree
     (fst (run plain_env [Prepare, Iterate None, Iterate (Some 3), Finalize, Iterate (Some 20)]
        (fst (initialize plain_env (BaseEngine_init () [] [] None None None)))))"
proof -
  have h: "Initialize \<notin> set [Prepare, Iterate None, Iterate (Some 3), Finalize, Iterate (Some 20)]"
    by simp
  from counters_agree_after_first_initialize[OF h, where h = plain_env and d = "()"
      and infos = "[]" and calls = "[]" and pn = None and pc = None and ps = None] h
  show ?thesis by blast
qed

text \<open>
  Counterexample to claim C10 as stated: \<open>initialize()\<close>, one \<open>iterate()\<close>, then
  \<open>initialize()\<close> again leaves the counter at 0 and the error history empty, with one
  iteration record.
\<close>

theorem counters_disagree_counterexample:
  "curiter (fst (initialize plain_env (fst (iterate plain_env None
      (fst (initialize plain_env (BaseEngine_init () [] [] None None None))))))) = Some 0 \<and>
   errorlist (fst (initialize plain_env (fst (iterate plain_env None
      (fst (initialize plain_env (BaseEngine_init () [] [] None None None))))))) = Some [] \<and>
   length (itermeta (fst (initialize plain_env (fst (iterate plain_env None
      (fst (initialize plain_env (BaseEngine_init () [] [] None None None)))))))) = 1 \<and>
   \<not> counters_agree (fst (initialize plain_env (fst (iterate plain_env None
      (fst (initialize plain_env (BaseEngine_init () [] [] None None None)))))))"
  by code_simp

subsection \<open>The budget along a run\<close>

lemma numiter_iterate_body: "numiter (fst (iterate_body h s)) = numiter s"
  by (cases rule: iterate_body_cases[of h s]) simp_all

lemma numiter_iterate_loop: "numiter (fst (iterate_loop h n s)) = numiter s"
proof (induction n arbitrary: s)
  case 0
  then show ?case by simp
next
  case (Suc n)
  show ?case
  proof (cases "finished s")
    case True
    then show ?thesis by simp
  next
    case False
    obtain s' r where b: "iterate_body h s = (s', r)" by (cases "iterate_body h s")
    have s': "numiter s' = numiter s" using numiter_iterate_body[of h s] b by simp
    show ?thesis
    proof (cases r)
      case None
      then show ?thesis using False b Suc.IH[of s'] s' by simp
    next
      case (Some e)
      then show ?thesis using False b s' by simp
    qed
  qed
qed

lemma numiter_step: "numiter (fst (lifecycle_step h x s)) = numiter s"
proof (cases x)
  case Initialize
  then show ?thesis by (auto simp: initialize_def Let_def split: prod.splits)
next
  case Prepare
  then show ?thesis by (auto simp: prepare_def Let_def split: option.splits prod.splits)
next
  case (Iterate num)
  then show ?thesis by (simp add: iterate_def Let_def numiter_iterate_loop)
next
  case Finalize
  then show ?thesis by (auto simp: finalize_def Let_def split: prod.splits)
qed

lemma budget_kept_iterate_body:
  assumes "budget_kept s" and "\<not> finished s"
  shows "budget_kept (fst (iterate_body h s))"
proof (cases rule: iterate_body_cases[of h s])
  case (raised e d)
  then show ?thesis using assms by (auto simp: budget_kept_def split: option.splits)
next
  case (no_errorlist err d)
  then show ?thesis using assms by (auto simp: budget_kept_def split: option.splits)
next
  case (no_curiter err d el)
  then show ?thesis using assms by (auto simp: budget_kept_def split: option.splits)
next
  case (completed err d el c s')
  then show ?thesis using assms by (auto simp: budget_kept_def split: option.splits)
qed

lemma budget_kept_iterate_loop:
  "budget_kept s \<Longrightarrow> budget_kept (fst (iterate_loop h n s))"
proof (induction n arbitrary: s)
  case 0
  then show ?case by simp
next
  case (Suc n)
  show ?case
  proof (cases "finished s")
    case True
    then show ?thesis using Suc.prems by simp
  next
    case False
    obtain s' r where b: "iterate_body h s = (s', r)" by (cases "iterate_body h s")
    have s': "budget_kept s'"
      using budget_kept_iterate_body[OF Suc.prems False, of h] b by simp
    show ?thesis
    proof (cases r)
      case None
      then show ?thesis using False b Suc.IH[OF s'] by simp
    next
      case (Some e)
      then show ?thesis using False b s' by simp
    qed
  qed
qed

lemma budget_kept_step:
  assumes "1 \<le> numiter s" and "x = Initialize \<or> budget_kept s"
    and "\<not> (finished s \<and> x = Prepare)"
  shows "budget_kept (fst (lifecycle_step h x s))"
proof (cases x)
  case Initialize
  then show ?thesis using assms(1)
    by (auto simp: initialize_def Let_def budget_kept_def split: prod.splits)
next
  case Prepare
  then show ?thesis using assms(2,3)
    by (auto simp: prepare_def Let_def budget_kept_def split: option.splits prod.splits)
next
  case (Iterate num)
  then show ?thesis using assms(2) by (simp add: iterate_def Let_def budget_kept_iterate_loop)
next
  case Finalize
  then show ?thesis using assms(2)
    by (auto simp: finalize_def Let_def budget_kept_def split: option.splits prod.splits)
qed

lemma within_budget_step:
  assumes "1 \<le> numiter s" and "x = Initialize \<or> within_budget s"
    and "\<not> (finished s \<and> (x = Prepare \<or> x = Initialize))"
  shows "within_budget (fst (lifecycle_step h x s))"
proof (cases x)
  case Initialize
  then show ?thesis using assms(1,3) within_budget_initialize(1)[of s h] by simp
next
  case Prepare
  then show ?thesis using assms(2,3) by (simp add: within_budget_prepare)
next
  case (Iterate num)
  then show ?thesis using assms(2) by (simp add: within_budget_iterate)
next
  case Finalize
  then show ?thesis using assms(2) by (simp add: within_budget_finalize)
qed

lemma budget_kept_run:
  assumes "1 \<le> numiter s" and "ops = [] \<longrightarrow> budget_kept s"
    and "ops \<noteq> [] \<longrightarrow> hd ops = Initialize \<or> budget_kept s"
    and "never_on_finished [Prepare] h ops s"
  shows "budget_kept (fst (run h ops s))"
  using assms
proof (induction ops arbitrary: s)
  case Nil
  then show ?case by simp
next
  case (Cons x ops)
  obtain s' r where st: "lifecycle_step h x s = (s', r)" by (cases "lifecycle_step h x s")
  have g: "\<not> (finished s \<and> x = Prepare)" using Cons.prems(4) by simp
  have "budget_kept (fst (lifecycle_step h x s))"
    using Cons.prems(1,3) g by (intro budget_kept_step) simp_all
  then have s': "budget_kept s'" using st by simp
  have n': "1 \<le> numiter s'" using numiter_step[of h x s] st Cons.prems(1) by simp
  show ?case
  proof (cases r)
    case None
    then have "never_on_finished [Prepare] h ops s'" using Cons.prems(4) st by simp
    then have "budget_kept (fst (run h ops s'))"
      using s' n' by (intro Cons.IH) simp_all
    then show ?thesis using st None by simp
  next
    case (Some e)
    then show ?thesis using st s' by simp
  qed
qed

lemma within_budget_run:
  assumes "1 \<le> numiter s" and "ops = [] \<longrightarrow> within_budget s"
    and "ops \<noteq> [] \<longrightarrow> hd ops = Initialize \<or> within_budget s"
    and "never_on_finished [Prepare, Initialize] h ops s"
  shows "within_budget (fst (run h ops s))"
  using assms
proof (induction ops arbitrary: s)
  case Nil
  then show ?case by simp
next
  case (Cons x ops)
  obtain s' r where st: "lifecycle_step h x s = (s', r)" by (cases "lifecycle_step h x s")
  have g: "\<not> (finished s \<and> (x = Prepare \<or> x = Initialize))" using Cons.prems(4) by auto
  have "within_budget (fst (lifecycle_step h x s))"
    using Cons.prems(1,3) g by (intro within_budget_step) simp_all
  then have s': "within_budget s'" using st by simp
  have n': "1 \<le> numiter s'" using numiter_step[of h x s] st Cons.prems(1) by simp
  show ?case
  proof (cases r)
    case None
    then have "never_on_finished [Prepare, Initialize] h ops s'" using Cons.prems(4) st by simp
    then have "within_budget (fst (run h ops s'))"
      using s' n' by (intro Cons.IH) simp_all
    then show ?thesis using st None by simp
  next
    case (Some e)
    then show ?thesis using st s' by simp
  qed
qed

lemma iterate_body_sets_finished:
  assumes "\<not> finished s" and "iterate_body h s = (s', None)"
  shows "finished s' = (curiter s' = Some (numiter s))"
proof (cases rule: iterate_body_cases[of h s])
  case (raised e d)
  then show ?thesis using assms by simp
next
  case (no_errorlist err d)
  then show ?thesis using assms by simp
next
  case (no_curiter err d el)
  then show ?thesis using assms by simp
next
  case (completed err d el c s'')
  then have "s'' = s'" using assms by simp
  then show ?thesis using completed assms(1) by auto
qed

text \<open>
  Claim C3, amended. \<open>finished\<close> starts false, and a completed pass of the loop
  body sets it exactly when the incremented counter equals \<open>numiter\<close>. \<open>prepare\<close>
  always clears it; no other life-cycle call changes it from true to false, and
  \<open>iterate\<close> on a finished engine returns at once with the engine unchanged. With a
  budget \<open>numiter \<ge> 1\<close>, in every sequence of life-cycle calls that starts with
  \<open>initialize\<close> on a new engine and never calls \<open>prepare\<close> on a finished engine, the
  counter is at most \<open>numiter\<close> and \<open>finished\<close> is set when the counter equals
  \<open>numiter\<close>; if \<open>initialize\<close> is not called on a finished engine either,
  \<open>finished\<close> holds exactly when the counter equals \<open>numiter\<close>.
\<close>

theorem finished_flag_lifecycle:
  fixes h :: "('d, 'e, 'u) env"
  assumes "1 \<le> numiter (BaseEngine_init d infos calls pn pc ps :: ('d, 'e, 'u) BaseEngine)"
  shows "\<not> finished (BaseEngine_init d infos calls pn pc ps :: ('d, 'e, 'u) BaseEngine) \<and>
         (never_on_finished [Prepare] h (Initialize # ops)
            (BaseEngine_init d infos calls pn pc ps) \<longrightarrow>
          budget_kept
            (fst (run h (Initialize # ops) (BaseEngine_init d infos calls pn pc ps)))) \<and>
         (never_on_finished [Prepare, Initialize] h (Initialize # ops)
            (BaseEngine_init d infos calls pn pc ps) \<longrightarrow>
          within_budget
            (fst (run h (Initialize # ops) (BaseEngine_init d infos calls pn pc ps)))) \<and>
         (finished s \<and> x \<noteq> Prepare \<longrightarrow> finished (fst (lifecycle_step h x s))) \<and>
         (finished s \<longrightarrow> iterate h num s = (s, None)) \<and>
         \<not> finished (fst (prepare h s)) \<and>
         (\<not> finished s \<and> iterate_body h s = (s', None) \<longrightarrow>
            finished s' = (curiter s' = Some (numiter s)))"
proof -
  let ?e0 = "BaseEngine_init d infos calls pn pc ps :: ('d, 'e, 'u) BaseEngine"
  have nf: "\<not> finished ?e0" by (simp add: BaseEngine_init_def)
  have a: "never_on_finished [Prepare] h (Initialize # ops) ?e0 \<longrightarrow>
          budget_kept (fst (run h (Initialize # ops) ?e0))"
  proof
    assume "never_on_finished [Prepare] h (Initialize # ops) ?e0"
    then show "budget_kept (fst (run h (Initialize # ops) ?e0))"
      using assms by (intro budget_kept_run) simp_all
  qed
  have b: "never_on_finished [Prepare, Initialize] h (Initialize # ops) ?e0 \<longrightarrow>
          within_budget (fst (run h (Initialize # ops) ?e0))"
  proof
    assume "never_on_finished [Prepare, Initialize] h (Initialize # ops) ?e0"
    then show "within_budget (fst (run h (Initialize # ops) ?e0))"
      using assms by (intro within_budget_run) simp_all
  qed
  have c: "finished s \<and> x \<noteq> Prepare \<longrightarrow> finished (fst (lifecycle_step h x s))"
    using finished_kept[of s x h] by blast
  have d: "finished s \<longrightarrow> iterate h num s = (s, None)"
    by (simp add: iterate_finished)
  have e: "\<not> finished s \<and> iterate_body h s = (s', None) \<longrightarrow>
            finished s' = (curiter s' = Some (numiter s))"
    using iterate_body_sets_finished[of s h s'] by blast
  from nf a b c d prepare_clears_finished[of h s] e show ?thesis
    by (intro conjI)
qed

theorem finished_flag_lifecycle_witness:
  "1 \<le> numiter (BaseEngine_init () [] [] (Some 3) None None :: (unit, int, unit) BaseEngine) \<and>
   never_on_finished [Prepare, Initialize] plain_env
     (Initialize # [Prepare, Iterate None, Prepare, Iterate None, Prepare, Iterate None,
                    Finalize, Iterate (Some 4)])
     (BaseEngine_init () [] [] (Some 3) None None) \<and>
   within_budget
     (fst (run plain_env
        (Initialize # [Prepare, Iterate None, Prepare, Iterate None, Prepare, Iterate None,
                       Finalize, Iterate (Some 4)])
        (BaseEngine_init () [] [] (Some 3) None None))) \<and>
   finished
     (fst (run plain_env
        (Initialize # [Prepare, Iterate None, Prepare, Iterate None, Prepare, Iterate None,
                       Finalize, Iterate (Some 4)])
        (BaseEngine_init () [] [] (Some 3) None None)))"
proof -
  have h1: "1 \<le> numiter (BaseEngine_init () [] [] (Some 3) None None :: (unit, int, unit) BaseEngine)"
    by (simp add: BaseEngine_init_def)
  have h2: "never_on_finished [Prepare, Initialize] plain_env
     (Initialize # [Prepare, Iterate None, Prepare, Iterate None, Prepare, Iterate None,
                    Finalize, Iterate (Some 4)])
     (BaseEngine_init () [] [] (Some 3) None None)"
    by code_simp
  have h3: "finished
     (fst (run plain_env
        (Initialize # [Prepare, Iterate None, Prepare, Iterate None, Prepare, Iterate None,
                       Finalize, Iterate (Some 4)])
        (BaseEngine_init () [] [] (Some 3) None None)))"
    by code_simp
  from finished_flag_lifecycle[OF h1, where h = plain_env and ops = "[Prepare, Iterate None,
      Prepare, Iterate None, Prepare, Iterate None, Finalize, Iterate (Some 4)]"] h2
  have "within_budget
     (fst (run plain_env
        (Initialize # [Prepare, Iterate None, Prepare, Iterate None, Prepare, Iterate None,
                       Finalize, Iterate (Some 4)])
        (BaseEngine_init () [] [] (Some 3) None None)))"
    by blast
  with h1 h2 h3 show ?thesis by (intro conjI)
qed

text \<open>
  Counterexample to claim C3 as stated: with \<open>numiter = 1\<close>, one iteration sets
  \<open>finished\<close>; \<open>prepare\<close> then clears it, and the next iteration takes the counter
  to 2, past the budget, with \<open>finished\<close> false. \<open>initialize\<close> on the finished engine
  resets the counter to 0 and leaves \<open>finished\<close> true.
\<close>

theorem finished_reset_counterexample:
  "finished (fst (run plain_env [Initialize, Prepare, Iterate None]
      (BaseEngine_init () [] [] (Some 1) None None))) \<and>
   \<not> finished (fst (run plain_env [Initialize, Prepare, Iterate None, Prepare]
      (BaseEngine_init () [] [] (Some 1) None None))) \<and>
   curiter (fst (run plain_env [Initialize, Prepare, Iterate None, Prepare, Iterate None]
      (BaseEngine_init () [] [] (Some 1) None None))) = Some 2 \<and>
   numiter (fst (run plain_env [Initialize, Prepare, Iterate None, Prepare, Iterate None]
      (BaseEngine_init () [] [] (Some 1) None None))) = 1 \<and>
   \<not> finished (fst (run plain_env [Initialize, Prepare, Iterate None, Prepare, Iterate None]
      (BaseEngine_init () [] [] (Some 1) None None))) \<and>
   finished (fst (run plain_env [Initialize, Prepare, Iterate None, Initialize]
      (BaseEngine_init () [] [] (Some 1) None None))) \<and>
   curiter (fst (run plain_env [Initialize, Prepare, Iterate None, Initialize]
      (BaseEngine_init () [] [] (Some 1) None None))) = Some 0"
  by code_simp

lemma iterate_one:
  assumes hook: "\<forall>d. \<exists>e d'. engine_iterate h d = (Inr e, d')"
    and one: "p_numiter_contiguous s = 1" and nf: "\<not> finished s"
    and c: "curiter s = Some c" and el: "errorlist s = Some el"
  shows "\<exists>s'. iterate h None s = (s', None) \<and> p_numiter_contiguous s' = 1 \<and>
           numiter s' = numiter s \<and> curiter s' = Some (c + 1) \<and>
           (\<exists>el'. errorlist s' = Some el' \<and> length el' = length el + 1) \<and>
           finished s' = (c + 1 = numiter s) \<and>
           length (itermeta s') = length (itermeta s) + 1"
proof -
  from hook obtain err d where hk: "engine_iterate h (engine_state s) = (Inr err, d)" by blast
  from iterate_body_completed[OF hk el c] obtain s' where
    b: "iterate_body h s = (s', None)" and
    p: "errorlist s' = Some (el @ [err])" "curiter s' = Some (c + 1)"
       "finished s' = (finished s \<or> c + 1 = numiter s)" "numiter s' = numiter s"
       "p_numiter_contiguous s' = p_numiter_contiguous s"
       "\<exists>m. itermeta s' = itermeta s @ [m] \<and> iteration m = c + 1 \<and> error m = err"
    by blast
  have "iterate h None s = iterate_loop h (Suc 0) s"
    by (simp add: iterate_def one)
  also have "\<dots> = (s', None)" using nf b by simp
  finally have "iterate h None s = (s', None)" .
  moreover have "length (itermeta s') = length (itermeta s) + 1" using p(6) by auto
  ultimately show ?thesis using p one nf by auto
qed

text \<open>
  Claim C4. With \<open>numiter = 5\<close> and \<open>numiter_contiguous = 1\<close>, on an engine whose
  \<open>initialize\<close> returned and whose \<open>engine_iterate\<close> hook never raises, five calls
  of \<open>iterate()\<close> return without exception and leave \<open>finished\<close> true, five error
  values, five iteration records and the counter at 5; a sixth \<open>iterate()\<close> returns
  without exception and leaves the engine as it was.
\<close>
theorem five_iterations_then_stop:
  assumes hook: "\<forall>d. \<exists>e d'. engine_iterate h d = (Inr e, d')"
    and init: "initialize h (BaseEngine_init d infos calls (Some 5) (Some 1) ps) = (s0, None)"
  shows "\<exists>s5. run h (replicate 5 (Iterate None)) s0 = (s5, None) \<and> finished s5 \<and>
           (\<exists>el. errorlist s5 = Some el \<and> length el = 5) \<and> curiter s5 = Some 5 \<and>
           length (itermeta s5) = 5 \<and> iterate h None s5 = (s5, None)"
proof -
  have s0: "p_numiter_contiguous s0 = 1" "numiter s0 = 5" "\<not> finished s0"
    "curiter s0 = Some 0" "errorlist s0 = Some []" "itermeta s0 = []"
    using init by (auto simp: initialize_def Let_def BaseEngine_init_def split: prod.splits)
  from iterate_one[OF hook s0(1,3,4,5)] obtain s1 el1 where
    s1: "iterate h None s0 = (s1, None)" "p_numiter_contiguous s1 = 1" "numiter s1 = 5"
      "curiter s1 = Some 1" "errorlist s1 = Some el1" "length el1 = 1" "\<not> finished s1"
      "length (itermeta s1) = 1"
    using s0 by auto
  from iterate_one[OF hook s1(2,7,4,5)] obtain s2 el2 where
    s2: "iterate h None s1 = (s2, None)" "p_numiter_contiguous s2 = 1" "numiter s2 = 5"
      "curiter s2 = Some 2" "errorlist s2 = Some el2" "length el2 = 2" "\<not> finished s2"
      "length (itermeta s2) = 2"
    using s1 by auto
  from iterate_one[OF hook s2(2,7,4,5)] obtain s3 el3 where
    s3: "iterate h None s2 = (s3, None)" "p_numiter_contiguous s3 = 1" "numiter s3 = 5"
      "curiter s3 = Some 3" "errorlist s3 = Some el3" "length el3 = 3" "\<not> finished s3"
      "length (itermeta s3) = 3"
    using s2 by auto
  from iterate_one[OF hook s3(2,7,4,5)] obtain s4 el4 where
    s4: "iterate h None s3 = (s4, None)" "p_numiter_contiguous s4 = 1" "numiter s4 = 5"
      "curiter s4 = Some 4" "errorlist s4 = Some el4" "length el4 = 4" "\<not> finished s4"
      "length (itermeta s4) = 4"
    using s3 by auto
  from iterate_one[OF hook s4(2,7,4,5)] obtain s5 el5 where
    s5: "iterate h None s4 = (s5, None)" "curiter s5 = Some 5" "errorlist s5 = Some el5"
      "length el5 = 5" "finished s5" "length (itermeta s5) = 5"
    using s4 by auto
  have "replicate 5 (Iterate None) =
          [Iterate None, Iterate None, Iterate None, Iterate None, Iterate None]"
    by (simp add: eval_nat_numeral)
  then have "run h (replicate 5 (Iterate None)) s0 = (s5, None)"
    using s1(1) s2(1) s3(1) s4(1) s5(1) by simp
  moreover have "iterate h None s5 = (s5, None)"
    by (rule iterate_finished[OF s5(5)])
  ultimately show ?thesis using s5 by blast
qed

theorem five_iterations_then_stop_witness:
  "\<exists>s5. run plain_env (replicate 5 (Iterate None))
           (fst (initialize plain_env (BaseEngine_init () [] [] (Some 5) (Some 1) None))) = (s5, None) \<and>
     finished s5 \<and> (\<exists>el. errorlist s5 = Some el \<and> length el = 5) \<and> curiter s5 = Some 5 \<and>
     length (itermeta s5) = 5 \<and> iterate plain_env None s5 = (s5, None)"
proof -
  have h1: "\<forall>d. \<exists>e d'. engine_iterate plain_env d = (Inr e, d')"
    by (simp add: plain_env_def hook_iterate_zero_def)
  have h2: "initialize plain_env (BaseEngine_init () [] [] (Some 5) (Some 1) None) =
             (fst (initialize plain_env (BaseEngine_init () [] [] (Some 5) (Some 1) None)), None)"
    by (simp add: initialize_def plain_env_def hook_pass_def Let_def)
  from five_iterations_then_stop[OF h1 h2] show ?thesis .
qed

section \<open>Properties of the collective operations\<close>

lemma collect_all_return:
  "\<forall>x\<in>set xs. f x = Inr (g x) \<Longrightarrow> collect f xs = Inr (map g xs)"
  by (induction xs) simp_all

lemma set_map_filter_id: "x \<in> set (List.map_filter id a) \<longleftrightarrow> Some x \<in> set a"
  by (induction a) (auto simp: List.map_filter_simps split: option.splits)

text \<open>
  Claim C9, amended. With mpi4py loaded and MPI not enabled, as the module sets it
  for one rank, \<open>allreduce\<close> leaves the array as it is, \<open>barrier\<close> makes no call of
  the communicator, and the reductions return the local numpy reduction, whatever
  the communicator, when the calls of numpy return:
  \<^item> for \<open>axis=None\<close> the reduction of the list of the reductions of the entries that
    are not \<open>None\<close>;
  \<^item> for an axis other than 0 the list of the entries, each reduced along
    \<open>axis-1\<close>, \<open>None\<close> staying \<open>None\<close>;
  \<^item> for \<open>MPIsum\<close> with \<open>axis=0\<close> the value that the sum of the generated arrays
    gives.
  \<open>MPIsum\<close>, \<open>MPImin\<close>, \<open>MPImax\<close> and \<open>MPIprod\<close> are \<open>_MPIop\<close> at the four
  operations.
\<close>

theorem single_rank_local_reduction:
  "allreduce (MPIenabled_init 1) cm arr opt = arr \<and>
   barrier (MPIenabled_init 1) calls = calls \<and>
   ((\<forall>x. Some x \<in> set a \<longrightarrow> npop np op x = Inr (f x)) \<and>
    npop_list np op (map f (List.map_filter id a)) = Inr t \<longrightarrow>
      MPIop np cm (MPIenabled_init 1) True a op None = Inr (Total t)) \<and>
   (ax \<noteq> 0 \<and> (\<forall>x. Some x \<in> set a \<longrightarrow> npop_axis np op (ax - 1) x = Inr (g x)) \<longrightarrow>
      MPIop np cm (MPIenabled_init 1) True a op (Some ax) =
        Inr (PerEntry (map (map_option g) a))) \<and>
   (npop_gen np MPI_SUM (List.map_filter id a) = Inr (Reduced v) \<longrightarrow>
      MPIsum np cm (MPIenabled_init 1) True a (Some 0) = Inr (Across v)) \<and>
   MPIsum np cm e l a axis = MPIop np cm e l a MPI_SUM axis \<and>
   MPImin np cm e l a axis = MPIop np cm e l a MPI_MIN axis \<and>
   MPImax np cm e l a axis = MPIop np cm e l a MPI_MAX axis \<and>
   MPIprod np cm e l a axis = MPIop np cm e l a MPI_PROD axis"
proof -
  have c1: "allreduce (MPIenabled_init 1) cm arr opt = arr"
    by (simp add: allreduce_def MPIenabled_init_def)
  have c2: "barrier (MPIenabled_init 1) calls = calls"
    by (simp add: barrier_def MPIenabled_init_def)
  have c3: "(\<forall>x. Some x \<in> set a \<longrightarrow> npop np op x = Inr (f x)) \<and>
    npop_list np op (map f (List.map_filter id a)) = Inr t \<longrightarrow>
      MPIop np cm (MPIenabled_init 1) True a op None = Inr (Total t)"
  proof
    assume h: "(\<forall>x. Some x \<in> set a \<longrightarrow> npop np op x = Inr (f x)) \<and>
      npop_list np op (map f (List.map_filter id a)) = Inr t"
    then have "\<forall>x\<in>set (List.map_filter id a). npop np op x = Inr (f x)"
      by (simp add: set_map_filter_id)
    then have "collect (npop np op) (List.map_filter id a) = Inr (map f (List.map_filter id a))"
      by (rule collect_all_return)
    then show "MPIop np cm (MPIenabled_init 1) True a op None = Inr (Total t)"
      using h by (simp add: MPIop_def MPIenabled_init_def)
  qed
  have c4: "ax \<noteq> 0 \<and> (\<forall>x. Some x \<in> set a \<longrightarrow> npop_axis np op (ax - 1) x = Inr (g x)) \<longrightarrow>
      MPIop np cm (MPIenabled_init 1) True a op (Some ax) =
        Inr (PerEntry (map (map_option g) a))"
  proof
    assume h: "ax \<noteq> 0 \<and> (\<forall>x. Some x \<in> set a \<longrightarrow> npop_axis np op (ax - 1) x = Inr (g x))"
    have "\<forall>ai\<in>set a. (case ai of None \<Rightarrow> Inr None
              | Some x \<Rightarrow> (case npop_axis np op (ax - 1) x of
                            Inl e \<Rightarrow> Inl e | Inr y \<Rightarrow> Inr (Some y))) = Inr (map_option g ai)"
      using h by (auto split: option.splits)
    then have "collect (\<lambda>ai. case ai of None \<Rightarrow> Inr None
              | Some x \<Rightarrow> (case npop_axis np op (ax - 1) x of
                            Inl e \<Rightarrow> Inl e | Inr y \<Rightarrow> Inr (Some y))) a =
            Inr (map (map_option g) a)"
      by (rule collect_all_return)
    then show "MPIop np cm (MPIenabled_init 1) True a op (Some ax) =
        Inr (PerEntry (map (map_option g) a))"
      using h by (simp add: MPIop_def)
  qed
  have c5: "npop_gen np MPI_SUM (List.map_filter id a) = Inr (Reduced v) \<longrightarrow>
      MPIsum np cm (MPIenabled_init 1) True a (Some 0) = Inr (Across v)"
    by (cases v) (simp_all add: MPIsum_def MPIop_def MPIenabled_init_def)
  from c1 c2 c3 c4 c5 show ?thesis
    by (simp only: MPIsum_def MPImin_def MPImax_def MPIprod_def simp_thms)
qed

theorem single_rank_local_reduction_witness:
  "MPIop np1 comm1 (MPIenabled_init 1) True [Some [1, 2], None, Some [5]] MPI_SUM None =
     Inr (Total (Int64 8)) \<and>
   MPIop np1 comm1 (MPIenabled_init 1) True [Some [1, 2], None, Some [5]] MPI_MAX (Some 1) =
     Inr (PerEntry [Some (Sc 2), None, Some (Sc 5)]) \<and>
   MPIsum np1 comm1 (MPIenabled_init 1) True [Some [1, 2], None, Some [5]] (Some 0) =
     Inr (Across (Arr [6, 7]))"
proof -
  let ?a = "[Some [1, 2], None, Some [5 :: int]]"
  have f: "\<forall>x. Some x \<in> set ?a \<longrightarrow> npop np1 MPI_SUM x = Inr (wrap64 (sum_list x))"
    by (simp add: np1_def np1_reduce_def)
  have t: "npop_list np1 MPI_SUM (map (\<lambda>x. wrap64 (sum_list x)) (List.map_filter id ?a)) =
             Inr (Int64 8)"
    by code_simp
  have g: "\<forall>x. Some x \<in> set ?a \<longrightarrow>
             npop_axis np1 MPI_MAX (1 - 1) x = Inr (Sc (Max (set x)))"
    by (auto simp: np1_def np1_reduce_axis_def np1_reduce_def)
  have v: "npop_gen np1 MPI_SUM (List.map_filter id ?a) = Inr (Reduced (Arr [6, 7]))"
    by code_simp
  have one: "(1::int) \<noteq> 0" by simp
  note thm1 = single_rank_local_reduction[where np = np1 and cm = comm1 and a = ?a
      and op = MPI_SUM and f = "\<lambda>x. wrap64 (sum_list x)" and t = "Int64 8"
      and v = "Arr [6, 7]"]
  note thm2 = single_rank_local_reduction[where np = np1 and cm = comm1 and a = ?a
      and op = MPI_MAX and ax = 1 and g = "\<lambda>x. Sc (Max (set x))"]
  have r1: "MPIop np1 comm1 (MPIenabled_init 1) True ?a MPI_SUM None = Inr (Total (Int64 8))"
    using thm1 f t by blast
  have r3: "MPIsum np1 comm1 (MPIenabled_init 1) True ?a (Some 0) = Inr (Across (Arr [6, 7]))"
    using thm1 v by blast
  have "MPIop np1 comm1 (MPIenabled_init 1) True ?a MPI_MAX (Some 1) =
          Inr (PerEntry (map (map_option (\<lambda>x. Sc (Max (set x)))) ?a))"
    using thm2 g one by blast
  then have r2: "MPIop np1 comm1 (MPIenabled_init 1) True ?a MPI_MAX (Some 1) =
          Inr (PerEntry [Some (Sc 2), None, Some (Sc 5)])"
    by simp
  from r1 r2 r3 show ?thesis by (intro conjI)
qed

text \<open>
  Counterexample to claim C9 as stated: with one rank and mpi4py loaded, \<open>MPIsum\<close>
  of the single array \<open>[1, 2]\<close> is the scalar 3 for \<open>axis=None\<close>, and for
  \<open>axis=1\<close> the list holding the scalar 3, not the list holding the array
  \<open>[1, 2]\<close>.
\<close>

theorem reduction_changes_input_counterexample:
  "MPIsum np1 comm1 (MPIenabled_init 1) True [Some [1, 2]] None = Inr (Total (Int64 3)) \<and>
   MPIsum np1 comm1 (MPIenabled_init 1) True [Some [1, 2]] (Some 1) =
     Inr (PerEntry [Some (Sc 3)]) \<and>
   MPImax np1 comm1 (MPIenabled_init 1) True [Some [1, 2]] (Some 1) =
     Inr (PerEntry [Some (Sc 2)]) \<and>
   (PerEntry [Some (Sc 3)] :: (int list, int, np_scalar) mpi_result) \<noteq>
     PerEntry [Some (Arr [1, 2])]"
  by code_simp

text \<open>Two cases the claims above leave out. When importing mpi4py failed, line 151
  raises before any reduction, also with one rank. When numpy hands the generator of
  line 166 back, as it does for the maximum, the minimum and the product, and MPI is
  not enabled, \<open>_MPIop\<close> returns that generator.\<close>

lemma MPIop_without_mpi4py:
  "MPIop np cm enabled False a op axis = Inl AttributeError"
  by (simp add: MPIop_def)

lemma MPIop_generator_unreduced:
  "npop_gen np op (List.map_filter id a) = Inr Unreduced \<Longrightarrow>
     MPIop np cm False True a op (Some 0) = Inr (Generator (List.map_filter id a))"
  by (simp add: MPIop_def)

lemma MPImax_axis0_np1:
  "MPImax np1 comm1 (MPIenabled_init 1) True [Some [1, 2], None, Some [5]] (Some 0) =
     Inr (Generator [[1, 2], [5]])"
  by code_simp

end
